theory Spec2Isabelle
  imports Complex_Main "HOL-Library.Word"
begin

unbundle bit_operations_syntax

section \<open>HNSW index scan (src/hnswscan.c)\<close>

text \<open>
  The file holds the scan half of the HNSW access method: \<open>GetScanItems\<close> (the layered
  descent), \<open>hnswbeginscan\<close>, \<open>hnswrescan\<close>, \<open>hnswgettuple\<close> and
  \<open>hnswendscan\<close>. Everything else it calls (\<open>GetEntryPoint\<close>,
  \<open>EntryCandidate\<close>, \<open>SearchLayer\<close>, \<open>HnswNormValue\<close>, the buffer manager) lives
  outside the file and is a parameter of the model, collected in the record \<open>env\<close>.
  Each call to such a collaborator is written to a call log, so that what the code asks of
  its collaborators, and in which order, can be stated.
\<close>

subsection \<open>Data\<close>

type_synonym Datum = nat
type_synonym Oid = nat
type_synonym FmgrInfo = nat
type_synonym BlockNumber = nat
type_synonym Buffer = int
type_synonym ItemPointerData = "nat \<times> nat"

text \<open>An \<open>HnswElement\<close> is a pointer; the elements themselves live in a store.\<close>

type_synonym HnswElement = nat

record HnswElementData =
  heaptids :: "ItemPointerData list"
  level :: int
  blkno :: BlockNumber

type_synonym element_store = "HnswElement \<Rightarrow> HnswElementData"

text \<open>
  Of a candidate the file reads the \<open>element\<close> field only. The distance is a C float that
  no statement of this file inspects; it is carried along as a number.
\<close>

record HnswCandidate =
  element :: HnswElement
  distance :: real

record ScanKeyData =
  sk_flags :: "32 word"
  sk_argument :: Datum

definition SK_ISNULL :: "32 word" where
  "SK_ISNULL = 0x0001"

definition InvalidBuffer :: Buffer where
  "InvalidBuffer = 0"

definition BufferIsValid :: "Buffer \<Rightarrow> bool" where
  "BufferIsValid b = (b \<noteq> InvalidBuffer)"

record HnswScanOpaqueData =
  first :: bool
  buf :: Buffer
  w :: "HnswCandidate list"
  procinfo :: FmgrInfo
  normprocinfo :: "FmgrInfo option"
  collation :: Oid

text \<open>
  The fields of the scan descriptor that the file touches. A pointer that the code tests
  against \<open>NULL\<close> or sets to \<open>NULL\<close> is an \<open>option\<close>; \<open>xs_heaptid\<close> stands for
  \<open>xs_ctup.t_self\<close> on servers older than version 12.
\<close>

record IndexScanDescData =
  numberOfKeys :: int
  numberOfOrderBys :: int
  keyData :: "ScanKeyData list option"
  orderByData :: "ScanKeyData list option"
  opaque :: "HnswScanOpaqueData option"
  xs_heaptid :: ItemPointerData
  xs_recheckorderby :: bool

datatype fault =
  Elog_ERROR string
  | NullPointerDereference
  | OutOfBounds

subsection \<open>Collaborators and the call log\<close>

datatype extcall =
  Call_pgstat_count_index_scan
  | Call_HnswNormValue FmgrInfo Oid Datum "Datum option"
  | Call_GetEntryPoint "HnswElement option"
  | Call_EntryCandidate HnswElement Datum HnswCandidate
  | Call_SearchLayer Datum "HnswCandidate list" int int "HnswCandidate list"
  | Call_ReleaseBuffer Buffer
  | Call_ReadBuffer BlockNumber Buffer

record world =
  elems :: element_store
  calls :: "extcall list"

text \<open>
  The collaborators. The graph functions may allocate and load elements, so they take the
  element store and return it. The index relation is fixed for a scan and the trailing
  constant arguments of the source (\<open>false\<close>, \<open>NULL\<close>, \<open>NULL\<close>) are the same at every
  call site, so the parameters stand for the functions with those arguments applied.
  \<open>HnswNormValue\<close> returns \<open>false\<close> (here \<open>None\<close>) or stores the normalised value
  through its pointer argument (here \<open>Some\<close>).
\<close>

record env =
  GetEntryPoint :: "element_store \<Rightarrow> HnswElement option \<times> element_store"
  EntryCandidate :: "HnswElement \<Rightarrow> Datum \<Rightarrow> FmgrInfo \<Rightarrow> Oid \<Rightarrow> element_store
    \<Rightarrow> HnswCandidate \<times> element_store"
  SearchLayer :: "Datum \<Rightarrow> HnswCandidate list \<Rightarrow> int \<Rightarrow> int \<Rightarrow> FmgrInfo \<Rightarrow> Oid
    \<Rightarrow> element_store \<Rightarrow> HnswCandidate list \<times> element_store"
  HnswNormValue :: "FmgrInfo \<Rightarrow> Oid \<Rightarrow> Datum \<Rightarrow> Datum option"
  ReadBuffer :: "BlockNumber \<Rightarrow> Buffer"
  hnsw_ef_search :: int
  RelationGetIndexScan :: "int \<Rightarrow> int \<Rightarrow> IndexScanDescData"
  index_getprocinfo :: FmgrInfo
  HnswOptionalProcInfo :: "FmgrInfo option"
  rd_indcollation :: Oid

definition logged :: "extcall \<Rightarrow> world \<Rightarrow> world" where
  "logged c wd = wd\<lparr>calls := calls wd @ [c]\<rparr>"

definition call_GetEntryPoint :: "env \<Rightarrow> world \<Rightarrow> HnswElement option \<times> world" where
  "call_GetEntryPoint E wd =
     (case GetEntryPoint E (elems wd) of
        (r, m) \<Rightarrow> (r, logged (Call_GetEntryPoint r) (wd\<lparr>elems := m\<rparr>)))"

definition call_EntryCandidate ::
  "env \<Rightarrow> HnswElement \<Rightarrow> Datum \<Rightarrow> FmgrInfo \<Rightarrow> Oid \<Rightarrow> world \<Rightarrow> HnswCandidate \<times> world" where
  "call_EntryCandidate E e q pinfo coll wd =
     (case EntryCandidate E e q pinfo coll (elems wd) of
        (c, m) \<Rightarrow> (c, logged (Call_EntryCandidate e q c) (wd\<lparr>elems := m\<rparr>)))"

definition call_SearchLayer ::
  "env \<Rightarrow> Datum \<Rightarrow> HnswCandidate list \<Rightarrow> int \<Rightarrow> int \<Rightarrow> FmgrInfo \<Rightarrow> Oid \<Rightarrow> world
   \<Rightarrow> HnswCandidate list \<times> world" where
  "call_SearchLayer E q ep ef lc pinfo coll wd =
     (case SearchLayer E q ep ef lc pinfo coll (elems wd) of
        (r, m) \<Rightarrow> (r, logged (Call_SearchLayer q ep ef lc r) (wd\<lparr>elems := m\<rparr>)))"

subsection \<open>GetScanItems\<close>

text \<open>The loop \<open>for (lc = entryPoint->level; lc >= 1; lc--)\<close>.\<close>

function layer_descent ::
  "env \<Rightarrow> HnswScanOpaqueData \<Rightarrow> Datum \<Rightarrow> HnswCandidate list \<Rightarrow> int \<Rightarrow> world
   \<Rightarrow> HnswCandidate list \<times> world" where
  "layer_descent E so q ep lc wd =
     (if lc \<ge> 1
      then (case call_SearchLayer E q ep 1 lc (procinfo so) (collation so) wd of
              (r, wd') \<Rightarrow> layer_descent E so q r (lc - 1) wd')
      else (ep, wd))"
  by pat_completeness auto
termination
  by (relation "measure (\<lambda>(E, so, q, ep, lc, wd). nat lc)") auto

declare layer_descent.simps [simp del]

definition GetScanItems ::
  "env \<Rightarrow> HnswScanOpaqueData \<Rightarrow> Datum \<Rightarrow> world \<Rightarrow> HnswScanOpaqueData \<times> world" where
  "GetScanItems E so q wd =
     (case call_GetEntryPoint E wd of
        (None, wd1) \<Rightarrow> (so, wd1)
      | (Some entryPoint, wd1) \<Rightarrow>
          (case call_EntryCandidate E entryPoint q (procinfo so) (collation so) wd1 of
             (c, wd2) \<Rightarrow>
               (case layer_descent E so q ([] @ [c]) (level (elems wd2 entryPoint)) wd2 of
                  (ep, wd3) \<Rightarrow>
                    (case call_SearchLayer E q ep (hnsw_ef_search E) 0
                            (procinfo so) (collation so) wd3 of
                       (r, wd4) \<Rightarrow> (so\<lparr>w := r\<rparr>, wd4)))))"

subsection \<open>hnswbeginscan\<close>

definition hnswbeginscan :: "env \<Rightarrow> int \<Rightarrow> int \<Rightarrow> IndexScanDescData" where
  "hnswbeginscan E nkeys norderbys =
     (RelationGetIndexScan E nkeys norderbys)
       \<lparr>opaque := Some \<lparr>first = True, buf = InvalidBuffer, w = [],
                        procinfo = index_getprocinfo E,
                        normprocinfo = HnswOptionalProcInfo E,
                        collation = rd_indcollation E\<rparr>\<rparr>"

subsection \<open>hnswrescan\<close>

text \<open>
  \<open>memmove(dst, src, n * sizeof(ScanKeyData))\<close> on two arrays of scan keys: the first
  \<open>n\<close> entries of \<open>dst\<close> are overwritten. A null destination and an array shorter than
  \<open>n\<close> are faults.
\<close>

definition memmove_keys ::
  "ScanKeyData list option \<Rightarrow> ScanKeyData list \<Rightarrow> nat \<Rightarrow> fault + ScanKeyData list option" where
  "memmove_keys dst src n =
     (case dst of
        None \<Rightarrow> Inl NullPointerDereference
      | Some d \<Rightarrow>
          if n \<le> length src \<and> n \<le> length d then Inr (Some (take n src @ drop n d))
          else Inl OutOfBounds)"

text \<open>
  The guarded copy \<open>if (src && n > 0) memmove(dst, src, n * sizeof(ScanKeyData))\<close>.
\<close>

definition copy_keys ::
  "ScanKeyData list option \<Rightarrow> ScanKeyData list option \<Rightarrow> int
   \<Rightarrow> fault + ScanKeyData list option" where
  "copy_keys dst src n =
     (case src of
        Some ks \<Rightarrow> if n > 0 then memmove_keys dst ks (nat n) else Inr dst
      | None \<Rightarrow> Inr dst)"

text \<open>
  The parameters \<open>nkeys\<close> and \<open>norderbys\<close> of the source are never read and are left
  out. \<open>list_free\<close> only returns memory.
\<close>

definition hnswrescan ::
  "IndexScanDescData \<Rightarrow> ScanKeyData list option \<Rightarrow> ScanKeyData list option
   \<Rightarrow> fault + IndexScanDescData" where
  "hnswrescan scan keys orderbys =
     (case opaque scan of
        None \<Rightarrow> Inl NullPointerDereference
      | Some so \<Rightarrow>
          (case copy_keys (keyData scan) keys (numberOfKeys scan) of
             Inl f \<Rightarrow> Inl f
           | Inr kd \<Rightarrow>
               (case copy_keys (orderByData scan) orderbys (numberOfOrderBys scan) of
                  Inl f \<Rightarrow> Inl f
                | Inr od \<Rightarrow>
                    Inr (scan\<lparr>opaque := Some (so\<lparr>first := True, w := []\<rparr>),
                              keyData := kd, orderByData := od\<rparr>))))"

subsection \<open>hnswgettuple\<close>

text \<open>
  The loop \<open>while (list_length(so->w) > 0)\<close>. It returns from inside on the first
  candidate whose element still has a heap tid, and falls through to \<open>return false\<close>
  when the list is empty.
\<close>

function scan_loop ::
  "env \<Rightarrow> IndexScanDescData \<Rightarrow> HnswScanOpaqueData \<Rightarrow> world
   \<Rightarrow> bool \<times> IndexScanDescData \<times> world" where
  "scan_loop E scan so wd =
     (if length (w so) > 0
      then (let hc = last (w so) in
            if length (heaptids (elems wd (element hc))) = 0
            then scan_loop E scan (so\<lparr>w := butlast (w so)\<rparr>) wd
            else (let tid = last (heaptids (elems wd (element hc)));
                      indexblkno = blkno (elems wd (element hc));
                      wd1 = wd\<lparr>elems := (elems wd)(element hc :=
                              (elems wd (element hc))
                                \<lparr>heaptids := butlast (heaptids (elems wd (element hc)))\<rparr>)\<rparr>;
                      scan1 = scan\<lparr>xs_heaptid := tid\<rparr>;
                      wd2 = (if BufferIsValid (buf so)
                             then logged (Call_ReleaseBuffer (buf so)) wd1 else wd1);
                      b = ReadBuffer E indexblkno;
                      wd3 = logged (Call_ReadBuffer indexblkno b) wd2;
                      so1 = so\<lparr>buf := b\<rparr>
                  in (True, scan1\<lparr>xs_recheckorderby := False, opaque := Some so1\<rparr>, wd3)))
      else (False, scan\<lparr>opaque := Some so\<rparr>, wd))"
  by pat_completeness auto
termination
  by (relation "measure (\<lambda>(E, scan, so, wd). length (w so))") auto

declare scan_loop.simps [simp del]

text \<open>
  The assertions of the source (forward direction, value not compressed or toasted) are
  compiled out of a production build and are not modelled; \<open>pfree\<close> only returns memory.
  \<open>scan->orderByData->sk_flags\<close> reads the first key of the array, so an array without
  keys is a read out of bounds.
\<close>

definition hnswgettuple ::
  "env \<Rightarrow> IndexScanDescData \<Rightarrow> world \<Rightarrow> fault + (bool \<times> IndexScanDescData \<times> world)" where
  "hnswgettuple E scan wd =
     (case opaque scan of
        None \<Rightarrow> Inl NullPointerDereference
      | Some so \<Rightarrow>
          if first so
          then (let wd1 = logged Call_pgstat_count_index_scan wd in
                case orderByData scan of
                  None \<Rightarrow> Inl (Elog_ERROR ''cannot scan hnsw index without order'')
                | Some [] \<Rightarrow> Inl OutOfBounds
                | Some (ob # _) \<Rightarrow>
                    if sk_flags ob AND SK_ISNULL \<noteq> 0 then Inr (False, scan, wd1)
                    else (case normprocinfo so of
                            Some np \<Rightarrow>
                              (let r = HnswNormValue E np (collation so) (sk_argument ob);
                                   wd2 = logged (Call_HnswNormValue np (collation so)
                                                   (sk_argument ob) r) wd1
                               in case r of
                                    None \<Rightarrow> Inr (False, scan, wd2)
                                  | Some v \<Rightarrow>
                                      (case GetScanItems E so v wd2 of
                                         (so1, wd3) \<Rightarrow>
                                           Inr (scan_loop E scan (so1\<lparr>first := False\<rparr>) wd3)))
                          | None \<Rightarrow>
                              (case GetScanItems E so (sk_argument ob) wd1 of
                                 (so1, wd3) \<Rightarrow>
                                   Inr (scan_loop E scan (so1\<lparr>first := False\<rparr>) wd3))))
          else Inr (scan_loop E scan so wd))"

subsection \<open>hnswendscan\<close>

text \<open>
  \<open>so->buf\<close> is read through \<open>scan->opaque\<close> without a null test. \<open>list_free\<close> and
  \<open>pfree\<close> only return memory; what remains of the cursor is the null \<open>scan->opaque\<close>.
\<close>

definition hnswendscan :: "env \<Rightarrow> IndexScanDescData \<Rightarrow> world \<Rightarrow> fault + (IndexScanDescData \<times> world)" where
  "hnswendscan E scan wd =
     (case opaque scan of
        None \<Rightarrow> Inl NullPointerDereference
      | Some so \<Rightarrow>
          (let wd1 = (if BufferIsValid (buf so)
                      then logged (Call_ReleaseBuffer (buf so)) wd else wd)
           in Inr (scan\<lparr>opaque := None\<rparr>, wd1)))"

subsection \<open>Callers and observations\<close>

text \<open>
  A caller of the access method: the three entry points in any order, stopping at the
  first fault.
\<close>

datatype scan_op =
  Rescan "ScanKeyData list option" "ScanKeyData list option"
  | GetTuple
  | EndScan

fun run_scan ::
  "env \<Rightarrow> scan_op list \<Rightarrow> IndexScanDescData \<times> world \<Rightarrow> fault + (IndexScanDescData \<times> world)" where
  "run_scan E [] st = Inr st"
| "run_scan E (Rescan keys orderbys # ops) (scan, wd) =
     (case hnswrescan scan keys orderbys of
        Inl f \<Rightarrow> Inl f
      | Inr scan' \<Rightarrow> run_scan E ops (scan', wd))"
| "run_scan E (GetTuple # ops) (scan, wd) =
     (case hnswgettuple E scan wd of
        Inl f \<Rightarrow> Inl f
      | Inr (r, scan', wd') \<Rightarrow> run_scan E ops (scan', wd'))"
| "run_scan E (EndScan # ops) (scan, wd) =
     (case hnswendscan E scan wd of
        Inl f \<Rightarrow> Inl f
      | Inr st \<Rightarrow> run_scan E ops st)"

text \<open>
  A caller that asks for up to \<open>n\<close> tuples and collects the heap tids it is given,
  stopping at the first \<open>false\<close>.
\<close>

fun fetch_tuples ::
  "env \<Rightarrow> nat \<Rightarrow> IndexScanDescData \<Rightarrow> world
   \<Rightarrow> fault + (ItemPointerData list \<times> IndexScanDescData \<times> world)" where
  "fetch_tuples E 0 scan wd = Inr ([], scan, wd)"
| "fetch_tuples E (Suc n) scan wd =
     (case hnswgettuple E scan wd of
        Inl f \<Rightarrow> Inl f
      | Inr (r, scan', wd') \<Rightarrow>
          if r
          then (case fetch_tuples E n scan' wd' of
                  Inl f \<Rightarrow> Inl f
                | Inr (tids, scan'', wd'') \<Rightarrow> Inr (xs_heaptid scan' # tids, scan'', wd''))
          else Inr ([], scan', wd'))"

text \<open>The query, beam width and layer of a \<open>SearchLayer\<close> call in the log.\<close>

fun searched :: "extcall \<Rightarrow> (Datum \<times> int \<times> int) option" where
  "searched (Call_SearchLayer q ep ef lc r) = Some (q, ef, lc)"
| "searched _ = None"

text \<open>
  A run of \<open>SearchLayer\<close> calls is a chain from a frontier when the first call is given
  that frontier and every later call is given the result of the call before it; the value
  is the result of the last call.
\<close>

fun frontier_chain :: "HnswCandidate list \<Rightarrow> extcall list \<Rightarrow> HnswCandidate list option" where
  "frontier_chain ep [] = Some ep"
| "frontier_chain ep (Call_SearchLayer q ep' ef lc r # cs) =
     (if ep' = ep then frontier_chain r cs else None)"
| "frontier_chain ep (_ # cs) = None"

text \<open>
  The Query Driver as the specification words it (4.3), over the collaborators of
  \<open>env\<close>. \<open>narrow_spec\<close> is its step 3: for each layer of the list in turn, Layer
  Search with \<open>ef = 1\<close>, the frontier replaced by the result. \<open>runQuery_spec\<close> resolves
  the entry point (none: no result), builds the one-element frontier of the entry candidate,
  narrows it over the layers from the entry point's level down to 1, and ends with Layer
  Search on layer 0 with \<open>ef = hnsw_ef_search\<close>. \<open>narrow_calls\<close> and
  \<open>runQuery_calls\<close> are the collaborator calls this makes, each with the result the
  collaborator gives.
\<close>

fun narrow_spec ::
  "env \<Rightarrow> Datum \<Rightarrow> FmgrInfo \<Rightarrow> Oid \<Rightarrow> int list \<Rightarrow> HnswCandidate list \<Rightarrow> element_store
   \<Rightarrow> HnswCandidate list \<times> element_store" where
  "narrow_spec E q p cl [] ep m = (ep, m)"
| "narrow_spec E q p cl (l # ls) ep m =
     (case SearchLayer E q ep 1 l p cl m of (r, m') \<Rightarrow> narrow_spec E q p cl ls r m')"

fun narrow_calls ::
  "env \<Rightarrow> Datum \<Rightarrow> FmgrInfo \<Rightarrow> Oid \<Rightarrow> int list \<Rightarrow> HnswCandidate list \<Rightarrow> element_store
   \<Rightarrow> extcall list" where
  "narrow_calls E q p cl [] ep m = []"
| "narrow_calls E q p cl (l # ls) ep m =
     (case SearchLayer E q ep 1 l p cl m of
        (r, m') \<Rightarrow> Call_SearchLayer q ep 1 l r # narrow_calls E q p cl ls r m')"

definition runQuery_spec ::
  "env \<Rightarrow> Datum \<Rightarrow> FmgrInfo \<Rightarrow> Oid \<Rightarrow> element_store
   \<Rightarrow> HnswCandidate list option \<times> element_store" where
  "runQuery_spec E q p cl m =
     (case GetEntryPoint E m of
        (None, m1) \<Rightarrow> (None, m1)
      | (Some e, m1) \<Rightarrow>
          (case EntryCandidate E e q p cl m1 of
             (c, m2) \<Rightarrow>
               (case narrow_spec E q p cl (rev [1..level (m2 e)]) [c] m2 of
                  (ep, m3) \<Rightarrow>
                    (case SearchLayer E q ep (hnsw_ef_search E) 0 p cl m3 of
                       (r, m4) \<Rightarrow> (Some r, m4)))))"

definition runQuery_calls ::
  "env \<Rightarrow> Datum \<Rightarrow> FmgrInfo \<Rightarrow> Oid \<Rightarrow> element_store \<Rightarrow> extcall list" where
  "runQuery_calls E q p cl m =
     (case GetEntryPoint E m of
        (None, m1) \<Rightarrow> [Call_GetEntryPoint None]
      | (Some e, m1) \<Rightarrow>
          (case EntryCandidate E e q p cl m1 of
             (c, m2) \<Rightarrow>
               (case narrow_spec E q p cl (rev [1..level (m2 e)]) [c] m2 of
                  (ep, m3) \<Rightarrow>
                    [Call_GetEntryPoint (Some e), Call_EntryCandidate e q c]
                    @ narrow_calls E q p cl (rev [1..level (m2 e)]) [c] m2
                    @ [Call_SearchLayer q ep (hnsw_ef_search E) 0
                         (fst (SearchLayer E q ep (hnsw_ef_search E) 0 p cl m3))])))"

text \<open>
  A \<open>SearchLayer\<close> call of the narrowing kind: \<open>ef = 1\<close>, given a frontier of one
  candidate and returning one candidate.
\<close>

fun single_step :: "extcall \<Rightarrow> bool" where
  "single_step (Call_SearchLayer q ep ef lc r) = (length ep = 1 \<and> ef = 1 \<and> length r = 1)"
| "single_step _ = False"

text \<open>
  Replaying the buffer manager's part of a call log from the list of pins held:
  \<open>ReadBuffer\<close> adds a pin, \<open>ReleaseBuffer\<close> takes one away. The replay fails
  (\<open>None\<close>) as soon as more than one pin is held or a buffer is released that is not
  pinned; otherwise it gives the pins held at the end.
\<close>

fun pin_replay :: "Buffer list \<Rightarrow> extcall list \<Rightarrow> Buffer list option" where
  "pin_replay h [] = (if length h \<le> 1 then Some h else None)"
| "pin_replay h (Call_ReadBuffer blk b # cs) =
     (if length h \<le> 1 then pin_replay (b # h) cs else None)"
| "pin_replay h (Call_ReleaseBuffer b # cs) =
     (if length h \<le> 1 \<and> b \<in> set h then pin_replay (remove1 b h) cs else None)"
| "pin_replay h (_ # cs) = (if length h \<le> 1 then pin_replay h cs else None)"

text \<open>The buffer manager's calls in the log.\<close>

fun is_pin :: "extcall \<Rightarrow> bool" where
  "is_pin (Call_ReleaseBuffer b) = True"
| "is_pin (Call_ReadBuffer blk b) = True"
| "is_pin _ = False"

text \<open>The pin a cursor accounts for: the buffer in \<open>so->buf\<close>, when there is one.\<close>

definition cursor_pins :: "IndexScanDescData \<Rightarrow> Buffer list" where
  "cursor_pins scan =
     (case opaque scan of
        None \<Rightarrow> []
      | Some so \<Rightarrow> if BufferIsValid (buf so) then [buf so] else [])"

definition so_pins :: "HnswScanOpaqueData \<Rightarrow> Buffer list" where
  "so_pins so = (if BufferIsValid (buf so) then [buf so] else [])"

subsection \<open>A small index\<close>

text \<open>
  Three elements: the entry point at level 2 with one heap tid, an element with two heap
  tids, and an element with none. \<open>SearchLayer\<close> keeps the first \<open>ef\<close> candidates of
  its frontier on the upper layers and of all three elements on layer 0.
\<close>

definition demo_elems :: element_store where
  "demo_elems a =
     (if a = 0 then \<lparr>heaptids = [(10, 1)], level = 2, blkno = 3\<rparr>
      else if a = 1 then \<lparr>heaptids = [(11, 1), (11, 2)], level = 0, blkno = 4\<rparr>
      else \<lparr>heaptids = [], level = 0, blkno = 5\<rparr>)"

definition demo_cand :: "HnswElement \<Rightarrow> HnswCandidate" where
  "demo_cand a = \<lparr>element = a, distance = real a\<rparr>"

definition demo_key :: "32 word \<Rightarrow> Datum \<Rightarrow> ScanKeyData" where
  "demo_key fl v = \<lparr>sk_flags = fl, sk_argument = v\<rparr>"

definition demo_env :: env where
  "demo_env =
     \<lparr>GetEntryPoint = (\<lambda>m. (Some 0, m)),
      EntryCandidate = (\<lambda>e q p c m. (demo_cand e, m)),
      SearchLayer = (\<lambda>q ep ef lc p c m.
         (if lc = 0 then take (nat ef) [demo_cand 0, demo_cand 1, demo_cand 2]
          else take (nat ef) ep, m)),
      HnswNormValue = (\<lambda>p c v. if v = 0 then None else Some (v + 1)),
      ReadBuffer = (\<lambda>blk. int blk + 1),
      hnsw_ef_search = 40,
      RelationGetIndexScan = (\<lambda>nkeys norderbys.
         \<lparr>numberOfKeys = nkeys, numberOfOrderBys = norderbys,
          keyData = (if nkeys > 0 then Some (replicate (nat nkeys) (demo_key 0 0)) else None),
          orderByData =
            (if norderbys > 0 then Some (replicate (nat norderbys) (demo_key 0 0)) else None),
          opaque = None, xs_heaptid = (0, 0), xs_recheckorderby = False\<rparr>),
      index_getprocinfo = 1,
      HnswOptionalProcInfo = None,
      rd_indcollation = 0\<rparr>"

definition demo_world :: world where
  "demo_world = \<lparr>elems = demo_elems, calls = []\<rparr>"

definition demo_so :: HnswScanOpaqueData where
  "demo_so = \<lparr>first = True, buf = InvalidBuffer, w = [], procinfo = 1,
              normprocinfo = None, collation = 0\<rparr>"

text \<open>The same index without an entry point.\<close>

definition empty_env :: env where
  "empty_env = demo_env\<lparr>GetEntryPoint := (\<lambda>m. (None, m))\<rparr>"

text \<open>
  The same index with a search that moves: on the upper layers \<open>SearchLayer\<close> steps from
  each kept candidate to the element after it, on layer 0 it adds the element that the
  query selects.
\<close>

definition hop_env :: env where
  "hop_env = demo_env\<lparr>SearchLayer := (\<lambda>q ep ef lc p c m.
       (if lc = 0 then take (nat ef) (ep @ [demo_cand (q mod 2)])
        else map (\<lambda>x. demo_cand (Suc (element x))) (take (nat ef) ep), m))\<rparr>"

text \<open>
  A cursor with an ordering key \<open>ob\<close>, in the state \<open>so\<close>.
\<close>

definition demo_scan :: "ScanKeyData list option \<Rightarrow> HnswScanOpaqueData \<Rightarrow> IndexScanDescData" where
  "demo_scan obs so =
     \<lparr>numberOfKeys = 0, numberOfOrderBys = 1, keyData = None, orderByData = obs,
      opaque = Some so, xs_heaptid = (0, 0), xs_recheckorderby = True\<rparr>"

section \<open>Properties\<close>

subsection \<open>The call log\<close>

lemma logged_simps [simp]:
  "calls (logged c wd) = calls wd @ [c]" "elems (logged c wd) = elems wd"
  by (simp_all add: logged_def)

lemma frontier_chain_append:
  "frontier_chain ep (cs @ ds) = Option.bind (frontier_chain ep cs) (\<lambda>e. frontier_chain e ds)"
  by (induction ep cs rule: frontier_chain.induct) auto

lemma call_SearchLayer_calls:
  "call_SearchLayer E q ep ef lc p c wd = (r, wd') \<Longrightarrow>
     calls wd' = calls wd @ [Call_SearchLayer q ep ef lc r]"
  by (auto simp: call_SearchLayer_def split: prod.splits)

lemma rev_upto_step: "1 \<le> lc \<Longrightarrow> rev [1..lc] = lc # rev [1..lc - 1]"
  by (simp add: upto_rec2)

lemma layer_descent_calls:
  "layer_descent E so q ep lc wd = (ep', wd') \<Longrightarrow>
     \<exists>cs. calls wd' = calls wd @ cs
        \<and> map searched cs = map (\<lambda>l. Some (q, 1, l)) (rev [1..lc])
        \<and> frontier_chain ep cs = Some ep'"
proof (induction E so q ep lc wd rule: layer_descent.induct)
  case (1 E so q ep lc wd)
  show ?case
  proof (cases "1 \<le> lc")
    case False
    with "1.prems" show ?thesis
      by (simp add: layer_descent.simps [of E so q ep lc wd])
  next
    case True
    obtain r wd1 where
      c1: "call_SearchLayer E q ep 1 lc (procinfo so) (collation so) wd = (r, wd1)"
      by (cases "call_SearchLayer E q ep 1 lc (procinfo so) (collation so) wd")
    with True "1.prems" have rest: "layer_descent E so q r (lc - 1) wd1 = (ep', wd')"
      by (simp add: layer_descent.simps [of E so q ep lc wd])
    from "1.IH" [OF True c1 [symmetric] rest] obtain cs where
      cs: "calls wd' = calls wd1 @ cs"
          "map searched cs = map (\<lambda>l. Some (q, 1, l)) (rev [1..lc - 1])"
          "frontier_chain r cs = Some ep'"
      by blast
    let ?c = "Call_SearchLayer q ep 1 lc r"
    have "calls wd' = calls wd @ (?c # cs)"
      using cs(1) call_SearchLayer_calls [OF c1] by simp
    moreover have "map searched (?c # cs) = map (\<lambda>l. Some (q, 1, l)) (rev [1..lc])"
      using cs(2) True by (simp add: rev_upto_step)
    moreover have "frontier_chain ep (?c # cs) = Some ep'"
      using cs(3) by simp
    ultimately show ?thesis by blast
  qed
qed

subsection \<open>The layered descent\<close>

lemmas demo_defs = hnswbeginscan_def demo_env_def hnswrescan_def copy_keys_def memmove_keys_def
      hnswgettuple_def Let_def demo_key_def SK_ISNULL_def GetScanItems_def call_GetEntryPoint_def
      call_EntryCandidate_def call_SearchLayer_def layer_descent.simps demo_world_def demo_elems_def
      scan_loop.simps demo_cand_def BufferIsValid_def InvalidBuffer_def logged_def
      hnswendscan_def cursor_pins_def demo_scan_def demo_so_def empty_env_def

lemma descent_then_search_calls:
  assumes d: "layer_descent E so q ep0 lv wd2 = (ep, wd3)"
    and s: "call_SearchLayer E q ep ef 0 p cl wd3 = (r, wd4)"
  shows "\<exists>cs. calls wd4 = calls wd2 @ cs
           \<and> map searched cs = map (\<lambda>l. Some (q, 1, l)) (rev [1..lv]) @ [Some (q, ef, 0)]
           \<and> frontier_chain ep0 cs = Some r"
proof -
  from layer_descent_calls [OF d] obtain cs where
    cs: "calls wd3 = calls wd2 @ cs"
        "map searched cs = map (\<lambda>l. Some (q, 1, l)) (rev [1..lv])"
        "frontier_chain ep0 cs = Some ep"
    by blast
  let ?c = "Call_SearchLayer q ep ef 0 r"
  have "calls wd4 = calls wd2 @ (cs @ [?c])"
    using cs(1) call_SearchLayer_calls [OF s] by simp
  moreover have "map searched (cs @ [?c]) =
      map (\<lambda>l. Some (q, 1, l)) (rev [1..lv]) @ [Some (q, ef, 0)]"
    using cs(2) by simp
  moreover have "frontier_chain ep0 (cs @ [?c]) = Some r"
    using cs(3) by (simp add: frontier_chain_append)
  ultimately show ?thesis by blast
qed

lemma call_SearchLayer_result:
  "call_SearchLayer E q ep ef lc p c wd = (r, wd') \<Longrightarrow>
     SearchLayer E q ep ef lc p c (elems wd) = (r, elems wd')
     \<and> calls wd' = calls wd @ [Call_SearchLayer q ep ef lc r]"
  by (auto simp: call_SearchLayer_def split: prod.splits)

lemma layer_descent_refines:
  "layer_descent E so q ep lc wd = (ep', wd') \<Longrightarrow>
     narrow_spec E q (procinfo so) (collation so) (rev [1..lc]) ep (elems wd) = (ep', elems wd')
     \<and> calls wd' = calls wd
          @ narrow_calls E q (procinfo so) (collation so) (rev [1..lc]) ep (elems wd)"
proof (induction E so q ep lc wd rule: layer_descent.induct)
  case (1 E so q ep lc wd)
  show ?case
  proof (cases "1 \<le> lc")
    case False
    with "1.prems" show ?thesis
      by (simp add: layer_descent.simps [of E so q ep lc wd])
  next
    case True
    obtain r wd1 where
      c1: "call_SearchLayer E q ep 1 lc (procinfo so) (collation so) wd = (r, wd1)"
      by (cases "call_SearchLayer E q ep 1 lc (procinfo so) (collation so) wd")
    with True "1.prems" have rest: "layer_descent E so q r (lc - 1) wd1 = (ep', wd')"
      by (simp add: layer_descent.simps [of E so q ep lc wd])
    from call_SearchLayer_result [OF c1] have
      s: "SearchLayer E q ep 1 lc (procinfo so) (collation so) (elems wd) = (r, elems wd1)"
         "calls wd1 = calls wd @ [Call_SearchLayer q ep 1 lc r]"
      by simp_all
    from "1.IH" [OF True c1 [symmetric] rest] s True show ?thesis
      by (simp add: rev_upto_step)
  qed
qed

lemma narrow_calls_searched:
  "map searched (narrow_calls E q p cl ls ep m) = map (\<lambda>l. Some (q, 1, l)) ls"
  by (induction ls arbitrary: ep m) (auto split: prod.splits)

lemma narrow_calls_chain:
  "frontier_chain ep (narrow_calls E q p cl ls ep m @ ds)
     = frontier_chain (fst (narrow_spec E q p cl ls ep m)) ds"
  by (induction ls arbitrary: ep m) (auto split: prod.splits)

lemma narrow_single:
  assumes "\<forall>q ep lc p cl m. ep \<noteq> [] \<longrightarrow> length (fst (SearchLayer E q ep 1 lc p cl m)) = 1"
  shows "length ep = 1 \<Longrightarrow>
     length (fst (narrow_spec E q p cl ls ep m)) = 1
     \<and> list_all single_step (narrow_calls E q p cl ls ep m)"
proof (induction ls arbitrary: ep m)
  case Nil
  then show ?case by simp
next
  case (Cons l ls)
  obtain r m' where s: "SearchLayer E q ep 1 l p cl m = (r, m')"
    by (cases "SearchLayer E q ep 1 l p cl m")
  from Cons.prems have "ep \<noteq> []" by auto
  with assms have "length (fst (SearchLayer E q ep 1 l p cl m)) = 1" by blast
  with s have r: "length r = 1" by simp
  from Cons.IH [OF r, of m'] s r Cons.prems show ?case by simp
qed

lemma GetScanItems_refines:
  assumes "GetScanItems E so q wd = (so', wd')"
  shows "so' = (case fst (runQuery_spec E q (procinfo so) (collation so) (elems wd)) of
                  None \<Rightarrow> so | Some r \<Rightarrow> so\<lparr>w := r\<rparr>)
       \<and> elems wd' = snd (runQuery_spec E q (procinfo so) (collation so) (elems wd))
       \<and> calls wd' = calls wd @ runQuery_calls E q (procinfo so) (collation so) (elems wd)"
proof -
  obtain eo m1 where g: "GetEntryPoint E (elems wd) = (eo, m1)"
    by (cases "GetEntryPoint E (elems wd)")
  show ?thesis
  proof (cases eo)
    case None
    with assms g show ?thesis
      by (auto simp: GetScanItems_def call_GetEntryPoint_def runQuery_spec_def runQuery_calls_def)
  next
    case (Some e)
    let ?p = "procinfo so" and ?cl = "collation so"
    obtain c m2 where ec: "EntryCandidate E e q ?p ?cl m1 = (c, m2)"
      by (cases "EntryCandidate E e q ?p ?cl m1")
    let ?wd2 = "wd\<lparr>elems := m2,
        calls := calls wd @ [Call_GetEntryPoint (Some e), Call_EntryCandidate e q c]\<rparr>"
    obtain ep wd3 where d: "layer_descent E so q [c] (level (m2 e)) ?wd2 = (ep, wd3)"
      by (cases "layer_descent E so q [c] (level (m2 e)) ?wd2")
    obtain r wd4 where
      s: "call_SearchLayer E q ep (hnsw_ef_search E) 0 ?p ?cl wd3 = (r, wd4)"
      by (cases "call_SearchLayer E q ep (hnsw_ef_search E) 0 ?p ?cl wd3")
    from assms g Some ec d s have res: "so' = so\<lparr>w := r\<rparr>" "wd' = wd4"
      by (simp_all add: GetScanItems_def call_GetEntryPoint_def call_EntryCandidate_def
            logged_def)
    from layer_descent_refines [OF d] have
      n: "narrow_spec E q ?p ?cl (rev [1..level (m2 e)]) [c] m2 = (ep, elems wd3)"
         "calls wd3 = calls wd @ [Call_GetEntryPoint (Some e), Call_EntryCandidate e q c]
             @ narrow_calls E q ?p ?cl (rev [1..level (m2 e)]) [c] m2"
      by simp_all
    from call_SearchLayer_result [OF s] have
      f: "SearchLayer E q ep (hnsw_ef_search E) 0 ?p ?cl (elems wd3) = (r, elems wd4)"
         "calls wd4 = calls wd3 @ [Call_SearchLayer q ep (hnsw_ef_search E) 0 r]"
      by simp_all
    from g Some ec n f res show ?thesis
      by (simp add: runQuery_spec_def runQuery_calls_def)
  qed
qed

lemma hop_entry:
  "call_GetEntryPoint hop_env demo_world
     = (Some 0, \<lparr>elems = demo_elems, calls = [Call_GetEntryPoint (Some 0)]\<rparr>)"
  by (simp add: call_GetEntryPoint_def hop_env_def demo_env_def demo_world_def logged_def)

lemma hop_candidate:
  "call_EntryCandidate hop_env 0 7 (procinfo demo_so) (collation demo_so)
       \<lparr>elems = demo_elems, calls = [Call_GetEntryPoint (Some 0)]\<rparr>
     = (demo_cand 0, \<lparr>elems = demo_elems,
          calls = [Call_GetEntryPoint (Some 0), Call_EntryCandidate 0 7 (demo_cand 0)]\<rparr>)"
  by (simp add: call_EntryCandidate_def hop_env_def demo_env_def logged_def)

lemma hop_single:
  "\<forall>q ep lc p cl m. ep \<noteq> [] \<longrightarrow> length (fst (SearchLayer hop_env q ep 1 lc p cl m)) = 1"
proof (intro allI impI)
  fix q ep lc p cl m
  assume "ep \<noteq> ([] :: HnswCandidate list)"
  then obtain x xs where "ep = x # xs" by (cases ep) auto
  then show "length (fst (SearchLayer hop_env q ep 1 lc p cl m)) = 1"
    by (simp add: hop_env_def demo_env_def)
qed

text \<open>
  C1. When the entry point exists, \<open>GetScanItems\<close> does what the specification's
  driver does after scoring the entry point. The frontier it hands to layer 0 is the one
  obtained from the one-element frontier of the entry candidate by calling
  \<open>SearchLayer\<close> with \<open>ef = 1\<close> on each layer from the entry point's level down to 1,
  in that order, and replacing the frontier by what the call returns; what it stores in
  \<open>so->w\<close> is what \<open>SearchLayer\<close> returns for that frontier on layer 0 with
  \<open>ef = hnsw_ef_search\<close>. The calls it makes are exactly these, each logged with the
  result the collaborator gave, all with the query, each given the result of the call
  before it. And when \<open>SearchLayer\<close> with \<open>ef = 1\<close> returns one candidate for every
  frontier that is not empty, every frontier of the descent, also the one handed to layer 0,
  has exactly one element.
\<close>

theorem GetScanItems_descends:
  assumes "call_GetEntryPoint E wd = (Some e, wd1)"
    and "call_EntryCandidate E e q (procinfo so) (collation so) wd1 = (c, wd2)"
    and "GetScanItems E so q wd = (so', wd')"
  shows "\<exists>ep m r m'.
      narrow_spec E q (procinfo so) (collation so) (rev [1..level (elems wd2 e)]) [c] (elems wd2)
        = (ep, m)
    \<and> SearchLayer E q ep (hnsw_ef_search E) 0 (procinfo so) (collation so) m = (r, m')
    \<and> so' = so\<lparr>w := r\<rparr> \<and> elems wd' = m'
    \<and> (\<exists>cs. cs = narrow_calls E q (procinfo so) (collation so)
                    (rev [1..level (elems wd2 e)]) [c] (elems wd2)
                  @ [Call_SearchLayer q ep (hnsw_ef_search E) 0 r]
           \<and> calls wd' = calls wd2 @ cs
           \<and> map searched cs =
               map (\<lambda>l. Some (q, 1, l)) (rev [1..level (elems wd2 e)])
                 @ [Some (q, hnsw_ef_search E, 0)]
           \<and> frontier_chain [c] cs = Some (w so'))
    \<and> ((\<forall>q ep lc p cl m. ep \<noteq> [] \<longrightarrow> length (fst (SearchLayer E q ep 1 lc p cl m)) = 1)
         \<longrightarrow> length ep = 1
             \<and> list_all single_step
                 (narrow_calls E q (procinfo so) (collation so)
                    (rev [1..level (elems wd2 e)]) [c] (elems wd2)))"
proof -
  let ?p = "procinfo so" and ?cl = "collation so" and ?ls = "rev [1..level (elems wd2 e)]"
  obtain ep wd3 where d: "layer_descent E so q [c] (level (elems wd2 e)) wd2 = (ep, wd3)"
    by (cases "layer_descent E so q [c] (level (elems wd2 e)) wd2")
  obtain r wd4 where
    s: "call_SearchLayer E q ep (hnsw_ef_search E) 0 ?p ?cl wd3 = (r, wd4)"
    by (cases "call_SearchLayer E q ep (hnsw_ef_search E) 0 ?p ?cl wd3")
  from assms d s have res: "so' = so\<lparr>w := r\<rparr>" "wd' = wd4"
    by (simp_all add: GetScanItems_def)
  from layer_descent_refines [OF d] have
    n: "narrow_spec E q ?p ?cl ?ls [c] (elems wd2) = (ep, elems wd3)"
       "calls wd3 = calls wd2 @ narrow_calls E q ?p ?cl ?ls [c] (elems wd2)"
    by simp_all
  from call_SearchLayer_result [OF s] have
    f: "SearchLayer E q ep (hnsw_ef_search E) 0 ?p ?cl (elems wd3) = (r, elems wd4)"
       "calls wd4 = calls wd3 @ [Call_SearchLayer q ep (hnsw_ef_search E) 0 r]"
    by simp_all
  let ?cs = "narrow_calls E q ?p ?cl ?ls [c] (elems wd2)
               @ [Call_SearchLayer q ep (hnsw_ef_search E) 0 r]"
  have l: "calls wd' = calls wd2 @ ?cs" using res n(2) f(2) by simp
  have ms: "map searched ?cs = map (\<lambda>l. Some (q, 1, l)) ?ls @ [Some (q, hnsw_ef_search E, 0)]"
    by (simp add: narrow_calls_searched)
  have ch: "frontier_chain [c] ?cs = Some (w so')"
    using n(1) res by (simp add: narrow_calls_chain)
  have single: "length ep = 1 \<and> list_all single_step (narrow_calls E q ?p ?cl ?ls [c] (elems wd2))"
    if "\<forall>q ep lc p cl m. ep \<noteq> [] \<longrightarrow> length (fst (SearchLayer E q ep 1 lc p cl m)) = 1"
    using narrow_single [OF that, of "[c]" q ?p ?cl ?ls "elems wd2"] n(1) by simp
  from n(1) f(1) res l ms ch single show ?thesis by blast
qed

theorem GetScanItems_descends_witness:
  "w (fst (GetScanItems hop_env demo_so 7 demo_world)) = [demo_cand 2, demo_cand 1]
   \<and> calls (snd (GetScanItems hop_env demo_so 7 demo_world))
       = [Call_GetEntryPoint (Some 0), Call_EntryCandidate 0 7 (demo_cand 0),
          Call_SearchLayer 7 [demo_cand 0] 1 2 [demo_cand 1],
          Call_SearchLayer 7 [demo_cand 1] 1 1 [demo_cand 2],
          Call_SearchLayer 7 [demo_cand 2] 40 0 [demo_cand 2, demo_cand 1]]
   \<and> list_all single_step
        (narrow_calls hop_env 7 (procinfo demo_so) (collation demo_so) [2, 1] [demo_cand 0]
           demo_elems)"
proof -
  have g: "GetScanItems hop_env demo_so 7 demo_world
      = (fst (GetScanItems hop_env demo_so 7 demo_world),
         snd (GetScanItems hop_env demo_so 7 demo_world))"
    by simp
  have lv: "rev [1..level (demo_elems 0)] = [2, 1]"
    by (simp add: demo_elems_def upto_rec1)
  have nar: "narrow_spec hop_env 7 (procinfo demo_so) (collation demo_so) [2, 1] [demo_cand 0]
      demo_elems = ([demo_cand 2], demo_elems)"
    "narrow_calls hop_env 7 (procinfo demo_so) (collation demo_so) [2, 1] [demo_cand 0]
      demo_elems = [Call_SearchLayer 7 [demo_cand 0] 1 2 [demo_cand 1],
          Call_SearchLayer 7 [demo_cand 1] 1 1 [demo_cand 2]]"
    "SearchLayer hop_env 7 [demo_cand 2] (hnsw_ef_search hop_env) 0 (procinfo demo_so)
       (collation demo_so) demo_elems = ([demo_cand 2, demo_cand 1], demo_elems)"
    by (simp_all add: hop_env_def demo_env_def demo_cand_def)
  let ?G = "GetScanItems hop_env demo_so 7 demo_world"
  let ?n = "narrow_calls hop_env 7 (procinfo demo_so) (collation demo_so) [2, 1] [demo_cand 0]
              demo_elems"
  from GetScanItems_descends [OF hop_entry hop_candidate g, unfolded world.simps lv]
  obtain ep m r m' where
    a: "narrow_spec hop_env 7 (procinfo demo_so) (collation demo_so) [2, 1] [demo_cand 0]
          demo_elems = (ep, m)"
    and b: "SearchLayer hop_env 7 ep (hnsw_ef_search hop_env) 0 (procinfo demo_so)
          (collation demo_so) m = (r, m')"
    and c: "fst ?G = demo_so\<lparr>w := r\<rparr>"
    and d: "calls (snd ?G)
          = [Call_GetEntryPoint (Some 0), Call_EntryCandidate 0 7 (demo_cand 0)]
            @ ?n @ [Call_SearchLayer 7 ep (hnsw_ef_search hop_env) 0 r]"
    and e: "(\<forall>q ep lc p cl m. ep \<noteq> [] \<longrightarrow>
               length (fst (SearchLayer hop_env q ep 1 lc p cl m)) = 1)
            \<longrightarrow> length ep = 1 \<and> list_all single_step ?n"
    by (elim exE conjE) simp
  from a have ep: "ep = [demo_cand 2]" "m = demo_elems" unfolding nar(1) by simp_all
  with b have r: "r = [demo_cand 2, demo_cand 1]" unfolding ep nar(3) by simp
  from e hop_single have s: "list_all single_step ?n" by blast
  from c r have "w (fst ?G) = [demo_cand 2, demo_cand 1]" by simp
  moreover from d have "calls (snd ?G)
       = [Call_GetEntryPoint (Some 0), Call_EntryCandidate 0 7 (demo_cand 0),
          Call_SearchLayer 7 [demo_cand 0] 1 2 [demo_cand 1],
          Call_SearchLayer 7 [demo_cand 1] 1 1 [demo_cand 2],
          Call_SearchLayer 7 [demo_cand 2] 40 0 [demo_cand 2, demo_cand 1]]"
    unfolding nar(2) ep r by (simp add: hop_env_def demo_env_def)
  ultimately show ?thesis using s by simp
qed

subsection \<open>The result loop\<close>

lemma scan_loop_empty:
  "w so = [] \<Longrightarrow> scan_loop E scan so wd = (False, scan\<lparr>opaque := Some so\<rparr>, wd)"
  by (simp add: scan_loop.simps [of E scan so wd])

lemma scan_loop_drop:
  "w so = ws @ [hc] \<Longrightarrow> heaptids (elems wd (element hc)) = [] \<Longrightarrow>
     scan_loop E scan so wd = scan_loop E scan (so\<lparr>w := ws\<rparr>) wd"
  by (simp add: scan_loop.simps [of E scan so wd])

lemma scan_loop_pop:
  "w so = ws @ [hc] \<Longrightarrow> heaptids (elems wd (element hc)) \<noteq> [] \<Longrightarrow>
     scan_loop E scan so wd =
       (True,
        scan\<lparr>xs_heaptid := last (heaptids (elems wd (element hc))),
             xs_recheckorderby := False,
             opaque := Some (so\<lparr>buf := ReadBuffer E (blkno (elems wd (element hc)))\<rparr>)\<rparr>,
        logged (Call_ReadBuffer (blkno (elems wd (element hc)))
                  (ReadBuffer E (blkno (elems wd (element hc)))))
          ((if BufferIsValid (buf so) then logged (Call_ReleaseBuffer (buf so)) else id)
             (wd\<lparr>elems := (elems wd)(element hc :=
                    (elems wd (element hc))
                      \<lparr>heaptids := butlast (heaptids (elems wd (element hc)))\<rparr>)\<rparr>)))"
  by (simp add: scan_loop.simps [of E scan so wd] Let_def)

lemma scan_loop_opaque:
  "scan_loop E (scan\<lparr>opaque := x\<rparr>) so wd = scan_loop E scan so wd"
proof (induction E scan so wd rule: scan_loop.induct)
  case (1 E scan so wd)
  show ?case
  proof (cases "w so" rule: rev_cases)
    case Nil
    then show ?thesis by (simp add: scan_loop_empty)
  next
    case (snoc ws hc)
    show ?thesis
    proof (cases "heaptids (elems wd (element hc)) = []")
      case True
      with snoc "1.IH" [OF _ refl] show ?thesis
        by (simp add: scan_loop_drop [of so ws hc wd])
    next
      case False
      with snoc show ?thesis by (simp add: scan_loop_pop [of so ws hc wd])
    qed
  qed
qed

lemma scan_loop_true:
  "scan_loop E scan so wd = (True, scan', wd') \<Longrightarrow> \<not> xs_recheckorderby scan'"
proof (induction E scan so wd rule: scan_loop.induct)
  case (1 E scan so wd)
  show ?case
  proof (cases "w so" rule: rev_cases)
    case Nil
    with "1.prems" show ?thesis by (simp add: scan_loop_empty)
  next
    case (snoc ws hc)
    show ?thesis
    proof (cases "heaptids (elems wd (element hc)) = []")
      case True
      with snoc "1.prems" have "scan_loop E scan (so\<lparr>w := butlast (w so)\<rparr>) wd = (True, scan', wd')"
        by (simp add: scan_loop_drop)
      with "1.IH" [OF _ refl] snoc True show ?thesis by simp
    next
      case False
      with snoc "1.prems" show ?thesis by (auto simp: scan_loop_pop)
    qed
  qed
qed

lemma scan_loop_false:
  "scan_loop E scan so wd = (False, scan', wd') \<Longrightarrow>
     wd' = wd \<and> (\<exists>so'. scan' = scan\<lparr>opaque := Some so'\<rparr> \<and> w so' = [] \<and> first so' = first so)"
proof (induction E scan so wd rule: scan_loop.induct)
  case (1 E scan so wd)
  show ?case
  proof (cases "w so" rule: rev_cases)
    case Nil
    with "1.prems" show ?thesis by (auto simp: scan_loop_empty)
  next
    case (snoc ws hc)
    show ?thesis
    proof (cases "heaptids (elems wd (element hc)) = []")
      case True
      with snoc "1.prems" have "scan_loop E scan (so\<lparr>w := butlast (w so)\<rparr>) wd = (False, scan', wd')"
        by (simp add: scan_loop_drop)
      with "1.IH" [OF _ refl] snoc True show ?thesis by simp
    next
      case False
      with snoc "1.prems" show ?thesis by (auto simp: scan_loop_pop)
    qed
  qed
qed

lemma hnswgettuple_started:
  "opaque scan = Some so \<Longrightarrow> \<not> first so \<Longrightarrow>
     hnswgettuple E scan wd = Inr (scan_loop E scan so wd)"
  by (simp add: hnswgettuple_def Let_def)

lemma opaque_same: "opaque scan = Some so \<Longrightarrow> scan\<lparr>opaque := Some so\<rparr> = scan"
  by (cases scan) simp

lemma fetch_all_tids:
  "opaque scan = Some so \<Longrightarrow> \<not> first so \<Longrightarrow> w so = ws @ [hc] \<Longrightarrow>
   heaptids (elems wd (element hc)) = tids \<Longrightarrow>
     \<exists>scan' wd' b. fetch_tuples E (length tids) scan wd = Inr (rev tids, scan', wd')
        \<and> opaque scan' = Some (so\<lparr>buf := b\<rparr>)
        \<and> heaptids (elems wd' (element hc)) = []"
proof (induction tids arbitrary: scan so wd rule: rev_induct)
  case Nil
  then have "so\<lparr>buf := buf so\<rparr> = so" by simp
  with Nil show ?case by (metis fetch_tuples.simps(1) list.size(3) rev.simps(1))
next
  case (snoc t ts)
  let ?el = "elems wd (element hc)"
  let ?b = "ReadBuffer E (blkno ?el)"
  let ?so1 = "so\<lparr>buf := ?b\<rparr>"
  from snoc.prems have ne: "heaptids ?el \<noteq> []" by simp
  obtain scan1 wd1 where
    step: "scan_loop E scan so wd = (True, scan1, wd1)"
      and s1: "xs_heaptid scan1 = t" "opaque scan1 = Some ?so1"
              "heaptids (elems wd1 (element hc)) = ts"
    using scan_loop_pop [OF snoc.prems(3) ne, of E scan] snoc.prems(4)
    by (simp add: logged_def)
  from snoc.prems have g: "hnswgettuple E scan wd = Inr (True, scan1, wd1)"
    using step by (simp add: hnswgettuple_started)
  have "\<not> first ?so1" "w ?so1 = ws @ [hc]" using snoc.prems by simp_all
  from snoc.IH [OF s1(2) this s1(3)] obtain scan' wd' b where
    r: "fetch_tuples E (length ts) scan1 wd1 = Inr (rev ts, scan', wd')"
       "opaque scan' = Some (?so1\<lparr>buf := b\<rparr>)"
       "heaptids (elems wd' (element hc)) = []"
    by blast
  have "fetch_tuples E (length (ts @ [t])) scan wd = Inr (rev (ts @ [t]), scan', wd')"
    using g r(1) s1(1) by simp
  moreover have "opaque scan' = Some (so\<lparr>buf := b\<rparr>)" using r(2) by simp
  ultimately show ?case using r(3) by blast
qed

text \<open>
  C2. On a started scan whose result list ends in the candidate \<open>hc\<close>: when the
  element of \<open>hc\<close> has no heap tid left, the call drops \<open>hc\<close> and goes on as on the
  shorter list; otherwise it returns \<open>true\<close> with the last heap tid of that element,
  takes exactly that tid off the element and leaves the result list as it is. Hence an
  element with \<open>k\<close> heap tids is returned by \<open>k\<close> calls in a row, last tid first, and
  is still the last candidate, now without tids, after them.
\<close>

theorem hnswgettuple_pops_last:
  assumes "opaque scan = Some so" and "\<not> first so" and "w so = ws @ [hc]"
    and "heaptids (elems wd (element hc)) = tids"
  shows "(tids = [] \<longrightarrow>
            hnswgettuple E scan wd = hnswgettuple E (scan\<lparr>opaque := Some (so\<lparr>w := ws\<rparr>)\<rparr>) wd)
    \<and> (tids \<noteq> [] \<longrightarrow>
          (\<exists>scan' wd'. hnswgettuple E scan wd = Inr (True, scan', wd')
             \<and> xs_heaptid scan' = last tids
             \<and> opaque scan' = Some (so\<lparr>buf := ReadBuffer E (blkno (elems wd (element hc)))\<rparr>)
             \<and> elems wd' = (elems wd)(element hc :=
                              (elems wd (element hc))\<lparr>heaptids := butlast tids\<rparr>)))
    \<and> (\<exists>scan' wd' b. fetch_tuples E (length tids) scan wd = Inr (rev tids, scan', wd')
             \<and> opaque scan' = Some (so\<lparr>buf := b\<rparr>)
             \<and> heaptids (elems wd' (element hc)) = [])"
proof (intro conjI impI)
  assume "tids = []"
  with assms have "scan_loop E scan so wd = scan_loop E scan (so\<lparr>w := ws\<rparr>) wd"
    by (simp add: scan_loop_drop)
  moreover have "scan_loop E (scan\<lparr>opaque := Some (so\<lparr>w := ws\<rparr>)\<rparr>) (so\<lparr>w := ws\<rparr>) wd
      = scan_loop E scan (so\<lparr>w := ws\<rparr>) wd"
    by (rule scan_loop_opaque)
  ultimately show "hnswgettuple E scan wd
      = hnswgettuple E (scan\<lparr>opaque := Some (so\<lparr>w := ws\<rparr>)\<rparr>) wd"
    using assms by (simp add: hnswgettuple_started)
next
  assume "tids \<noteq> []"
  with assms show "\<exists>scan' wd'. hnswgettuple E scan wd = Inr (True, scan', wd')
             \<and> xs_heaptid scan' = last tids
             \<and> opaque scan' = Some (so\<lparr>buf := ReadBuffer E (blkno (elems wd (element hc)))\<rparr>)
             \<and> elems wd' = (elems wd)(element hc :=
                              (elems wd (element hc))\<lparr>heaptids := butlast tids\<rparr>)"
    using scan_loop_pop [of so ws hc wd E scan]
    by (simp add: hnswgettuple_started logged_def)
next
  from assms show "\<exists>scan' wd' b. fetch_tuples E (length tids) scan wd = Inr (rev tids, scan', wd')
             \<and> opaque scan' = Some (so\<lparr>buf := b\<rparr>)
             \<and> heaptids (elems wd' (element hc)) = []"
    by (rule fetch_all_tids)
qed

theorem hnswgettuple_pops_last_witness:
  "(\<exists>scan' wd'. hnswgettuple demo_env
        (demo_scan (Some [demo_key 0 7])
           (demo_so\<lparr>first := False, w := [demo_cand 0, demo_cand 1]\<rparr>)) demo_world
        = Inr (True, scan', wd')
      \<and> xs_heaptid scan' = (11, 2)
      \<and> heaptids (elems wd' 1) = [(11, 1)])
   \<and> (\<exists>scan' wd'. fetch_tuples demo_env 2
        (demo_scan (Some [demo_key 0 7])
           (demo_so\<lparr>first := False, w := [demo_cand 0, demo_cand 1]\<rparr>)) demo_world
        = Inr ([(11, 2), (11, 1)], scan', wd')
      \<and> heaptids (elems wd' 1) = [])
   \<and> hnswgettuple demo_env
        (demo_scan (Some [demo_key 0 7])
           (demo_so\<lparr>first := False, w := [demo_cand 0, demo_cand 2]\<rparr>)) demo_world
      = hnswgettuple demo_env
        (demo_scan (Some [demo_key 0 7])
           (demo_so\<lparr>first := False, w := [demo_cand 0]\<rparr>)) demo_world"
proof -
  let ?s1 = "demo_so\<lparr>first := False, w := [demo_cand 0, demo_cand 1]\<rparr>"
  let ?s2 = "demo_so\<lparr>first := False, w := [demo_cand 0, demo_cand 2]\<rparr>"
  have a: "opaque (demo_scan (Some [demo_key 0 7]) ?s1) = Some ?s1" "\<not> first ?s1"
    "w ?s1 = [demo_cand 0] @ [demo_cand 1]"
    "heaptids (elems demo_world (element (demo_cand 1))) = [(11, 1), (11, 2)]"
    by (simp_all add: demo_scan_def demo_so_def demo_world_def demo_elems_def demo_cand_def)
  have b: "opaque (demo_scan (Some [demo_key 0 7]) ?s2) = Some ?s2" "\<not> first ?s2"
    "w ?s2 = [demo_cand 0] @ [demo_cand 2]"
    "heaptids (elems demo_world (element (demo_cand 2))) = []"
    by (simp_all add: demo_scan_def demo_so_def demo_world_def demo_elems_def demo_cand_def)
  from hnswgettuple_pops_last [OF a, where E = demo_env] obtain scan1 wd1 scan2 wd2 where
    p: "hnswgettuple demo_env (demo_scan (Some [demo_key 0 7]) ?s1) demo_world
          = Inr (True, scan1, wd1)"
       "xs_heaptid scan1 = last [(11, 1), (11, 2)]"
       "elems wd1 = (elems demo_world)(element (demo_cand 1) :=
           (elems demo_world (element (demo_cand 1)))\<lparr>heaptids := butlast [(11, 1), (11, 2)]\<rparr>)"
    and f: "fetch_tuples demo_env (length [(11, 1), (11 :: nat, 2 :: nat)])
              (demo_scan (Some [demo_key 0 7]) ?s1) demo_world
          = Inr (rev [(11, 1), (11, 2)], scan2, wd2)"
       "heaptids (elems wd2 (element (demo_cand 1))) = []"
    by auto
  from p have 1: "\<exists>scan' wd'. hnswgettuple demo_env (demo_scan (Some [demo_key 0 7]) ?s1) demo_world
        = Inr (True, scan', wd') \<and> xs_heaptid scan' = (11, 2)
      \<and> heaptids (elems wd' 1) = [(11, 1)]"
    by (simp add: demo_cand_def)
  from f have 2: "\<exists>scan' wd'. fetch_tuples demo_env 2
        (demo_scan (Some [demo_key 0 7]) ?s1) demo_world
        = Inr ([(11, 2), (11, 1)], scan', wd') \<and> heaptids (elems wd' 1) = []"
    by (simp add: demo_cand_def numeral_2_eq_2 del: fetch_tuples.simps)
  from hnswgettuple_pops_last [OF b, where E = demo_env]
  have 3: "hnswgettuple demo_env (demo_scan (Some [demo_key 0 7]) ?s2) demo_world
      = hnswgettuple demo_env
        (demo_scan (Some [demo_key 0 7]) (demo_so\<lparr>first := False, w := [demo_cand 0]\<rparr>))
        demo_world"
    by (simp add: demo_scan_def)
  from 1 2 3 show ?thesis by blast
qed

text \<open>
  C10. A call that returns \<open>true\<close> leaves \<open>xs_recheckorderby\<close> cleared.
\<close>

theorem hnswgettuple_no_recheck:
  "hnswgettuple E scan wd = Inr (True, scan', wd') \<Longrightarrow> \<not> xs_recheckorderby scan'"
  by (auto simp: hnswgettuple_def Let_def scan_loop_true
           split: option.splits list.splits if_splits prod.splits)

theorem hnswgettuple_no_recheck_witness:
  "\<exists>scan' wd'. hnswgettuple demo_env (demo_scan (Some [demo_key 0 7]) demo_so) demo_world
       = Inr (True, scan', wd')
     \<and> xs_recheckorderby (demo_scan (Some [demo_key 0 7]) demo_so)
     \<and> \<not> xs_recheckorderby scan'"
proof -
  obtain scan' wd' where g: "hnswgettuple demo_env (demo_scan (Some [demo_key 0 7]) demo_so)
      demo_world = Inr (True, scan', wd')"
    by (simp add: demo_defs)
  from hnswgettuple_no_recheck [OF g] g show ?thesis
    by (auto simp: demo_scan_def)
qed

subsection \<open>End of results and the first call\<close>

lemma GetScanItems_no_entry:
  "fst (GetEntryPoint E (elems wd)) = None \<Longrightarrow>
     GetScanItems E so q wd = (so, snd (call_GetEntryPoint E wd))"
  by (auto simp: GetScanItems_def call_GetEntryPoint_def split: prod.splits option.splits)

lemma hnswgettuple_false_again:
  assumes "hnswgettuple E scan wd = Inr (False, scan', wd')"
  shows "\<exists>wd''. hnswgettuple E scan' wd' = Inr (False, scan', wd'')"
proof -
  from assms obtain so where so: "opaque scan = Some so"
    by (auto simp: hnswgettuple_def Let_def split: option.splits)
  have stay: "\<exists>wd''. hnswgettuple E scan' wd' = Inr (False, scan', wd'')"
    if "scan_loop E scan (so0\<lparr>first := False\<rparr>) wd0 = (False, scan', wd')" for so0 wd0
  proof -
    from scan_loop_false [OF that] obtain so' where
      s: "scan' = scan\<lparr>opaque := Some so'\<rparr>" "w so' = []" "\<not> first so'"
      by auto
    then have "opaque scan' = Some so'" by simp
    with s have "hnswgettuple E scan' wd' = Inr (False, scan', wd')"
      using hnswgettuple_started [of scan' so' E wd'] scan_loop_empty [of so' E scan' wd']
        opaque_same [of scan' so'] by simp
    then show ?thesis by blast
  qed
  show ?thesis
  proof (cases "first so")
    case False
    with assms so have "scan_loop E scan so wd = (False, scan', wd')"
      by (simp add: hnswgettuple_started)
    moreover from False have "so\<lparr>first := False\<rparr> = so" by (cases so) simp
    ultimately show ?thesis using stay [of so wd] by simp
  next
    case True
    from assms so True obtain ob obs where ob: "orderByData scan = Some (ob # obs)"
      by (auto simp: hnswgettuple_def Let_def split: option.splits list.splits)
    show ?thesis
    proof (cases "sk_flags ob AND SK_ISNULL \<noteq> 0")
      case null: True
      with assms so True ob have "scan' = scan"
        by (simp add: hnswgettuple_def Let_def)
      with so True ob null show ?thesis
        by (simp add: hnswgettuple_def Let_def)
    next
      case nonnull: False
      show ?thesis
      proof (cases "normprocinfo so")
        case None
        with assms so True ob nonnull obtain so1 wd1 where
          "scan_loop E scan (so1\<lparr>first := False\<rparr>) wd1 = (False, scan', wd')"
          by (auto simp: hnswgettuple_def Let_def split: prod.splits)
        then show ?thesis by (rule stay)
      next
        case (Some np)
        show ?thesis
        proof (cases "HnswNormValue E np (collation so) (sk_argument ob)")
          case nofit: None
          with assms so True ob nonnull Some have "scan' = scan"
            by (simp add: hnswgettuple_def Let_def)
          with so True ob nonnull Some nofit show ?thesis
            by (simp add: hnswgettuple_def Let_def)
        next
          case (Some v)
          with assms so True ob nonnull \<open>normprocinfo so = Some np\<close> obtain so1 wd1 where
            "scan_loop E scan (so1\<lparr>first := False\<rparr>) wd1 = (False, scan', wd')"
            by (auto simp: hnswgettuple_def Let_def split: prod.splits)
          then show ?thesis by (rule stay)
        qed
      qed
    qed
  qed
qed

text \<open>
  C4. With an empty result list a started scan returns \<open>false\<close> and changes
  nothing. A first call on an index without entry point (ordering argument present and not
  null, normalisation not failing) returns \<open>false\<close> and leaves the scan started with an
  empty list. And after any call that returned \<open>false\<close> the next call returns
  \<open>false\<close> as well, on the same cursor state, so that this repeats for ever; none of
  them is a fault.
\<close>

theorem hnswgettuple_end_of_results:
  assumes "opaque scan = Some so"
  shows "(\<not> first so \<and> w so = [] \<longrightarrow> hnswgettuple E scan wd = Inr (False, scan, wd))
    \<and> (first so \<and> w so = [] \<and> orderByData scan = Some (ob # obs)
         \<and> sk_flags ob AND SK_ISNULL = 0
         \<and> (case normprocinfo so of None \<Rightarrow> True
             | Some np \<Rightarrow> HnswNormValue E np (collation so) (sk_argument ob) \<noteq> None)
         \<and> fst (GetEntryPoint E (elems wd)) = None
       \<longrightarrow> (\<exists>wd'. hnswgettuple E scan wd
                     = Inr (False, scan\<lparr>opaque := Some (so\<lparr>first := False\<rparr>)\<rparr>, wd')))
    \<and> (\<forall>scan' wd'. hnswgettuple E scan wd = Inr (False, scan', wd')
         \<longrightarrow> (\<exists>so' wd''. opaque scan' = Some so'
                \<and> hnswgettuple E scan' wd' = Inr (False, scan', wd'')))"
proof (intro conjI impI allI)
  assume "\<not> first so \<and> w so = []"
  with assms show "hnswgettuple E scan wd = Inr (False, scan, wd)"
    by (simp add: hnswgettuple_started scan_loop_empty opaque_same)
next
  assume a: "first so \<and> w so = [] \<and> orderByData scan = Some (ob # obs)
         \<and> sk_flags ob AND SK_ISNULL = 0
         \<and> (case normprocinfo so of None \<Rightarrow> True
             | Some np \<Rightarrow> HnswNormValue E np (collation so) (sk_argument ob) \<noteq> None)
         \<and> fst (GetEntryPoint E (elems wd)) = None"
  with assms show "\<exists>wd'. hnswgettuple E scan wd
                     = Inr (False, scan\<lparr>opaque := Some (so\<lparr>first := False\<rparr>)\<rparr>, wd')"
    by (auto simp: hnswgettuple_def Let_def GetScanItems_no_entry scan_loop_empty
             split: option.splits)
next
  fix scan' wd'
  assume f: "hnswgettuple E scan wd = Inr (False, scan', wd')"
  from hnswgettuple_false_again [OF f] obtain wd'' where
    n: "hnswgettuple E scan' wd' = Inr (False, scan', wd'')" by blast
  then obtain so' where "opaque scan' = Some so'"
    by (auto simp: hnswgettuple_def Let_def split: option.splits)
  with n show "\<exists>so' wd''. opaque scan' = Some so'
                \<and> hnswgettuple E scan' wd' = Inr (False, scan', wd'')" by blast
qed

theorem hnswgettuple_end_of_results_witness:
  "hnswgettuple demo_env (demo_scan (Some [demo_key 0 7]) (demo_so\<lparr>first := False\<rparr>)) demo_world
     = Inr (False, demo_scan (Some [demo_key 0 7]) (demo_so\<lparr>first := False\<rparr>), demo_world)
   \<and> (\<exists>wd' wd''. hnswgettuple empty_env (demo_scan (Some [demo_key 0 7]) demo_so) demo_world
          = Inr (False, demo_scan (Some [demo_key 0 7]) (demo_so\<lparr>first := False\<rparr>), wd')
        \<and> hnswgettuple empty_env (demo_scan (Some [demo_key 0 7]) (demo_so\<lparr>first := False\<rparr>)) wd'
          = Inr (False, demo_scan (Some [demo_key 0 7]) (demo_so\<lparr>first := False\<rparr>), wd''))"
proof -
  let ?ob = "demo_key 0 7"
  let ?sc = "\<lambda>so. demo_scan (Some [?ob]) so"
  have o: "opaque (?sc so) = Some so" for so by (simp add: demo_scan_def)
  have 1: "hnswgettuple demo_env (?sc (demo_so\<lparr>first := False\<rparr>)) demo_world
     = Inr (False, ?sc (demo_so\<lparr>first := False\<rparr>), demo_world)"
    using hnswgettuple_end_of_results [OF o, where so = "demo_so\<lparr>first := False\<rparr>"
        and E = demo_env and wd = demo_world]
    by (simp add: demo_so_def)
  have u: "(?sc demo_so)\<lparr>opaque := Some (demo_so\<lparr>first := False\<rparr>)\<rparr> = ?sc (demo_so\<lparr>first := False\<rparr>)"
    by (simp add: demo_scan_def)
  from hnswgettuple_end_of_results [OF o, where so = demo_so and E = empty_env
      and wd = demo_world and ob = ?ob and obs = "[]"]
  have 2: "(\<exists>wd'. hnswgettuple empty_env (?sc demo_so) demo_world
                     = Inr (False, ?sc (demo_so\<lparr>first := False\<rparr>), wd'))"
    and 3: "\<forall>scan' wd'. hnswgettuple empty_env (?sc demo_so) demo_world = Inr (False, scan', wd')
         \<longrightarrow> (\<exists>so' wd''. opaque scan' = Some so'
                \<and> hnswgettuple empty_env scan' wd' = Inr (False, scan', wd''))"
    unfolding u
    by (simp_all add: demo_so_def demo_scan_def demo_key_def SK_ISNULL_def empty_env_def
          demo_env_def demo_world_def)
  from 2 obtain wd' where w: "hnswgettuple empty_env (?sc demo_so) demo_world
                     = Inr (False, ?sc (demo_so\<lparr>first := False\<rparr>), wd')" by blast
  with 3 obtain wd'' where
    "hnswgettuple empty_env (?sc (demo_so\<lparr>first := False\<rparr>)) wd'
       = Inr (False, ?sc (demo_so\<lparr>first := False\<rparr>), wd'')" by blast
  with 1 w show ?thesis by blast
qed

text \<open>
  C5. On the first call a null \<open>orderByData\<close> is the error
  \<open>cannot scan hnsw index without order\<close>; an ordering key with the \<open>SK_ISNULL\<close> flag
  makes the call return \<open>false\<close> with the cursor unchanged and nothing but the
  statistics call made, so no search has run.
\<close>

theorem hnswgettuple_ordering_argument:
  assumes "opaque scan = Some so" and "first so"
  shows "(orderByData scan = None \<longrightarrow>
            hnswgettuple E scan wd = Inl (Elog_ERROR ''cannot scan hnsw index without order''))
    \<and> (orderByData scan = Some (ob # obs) \<and> sk_flags ob AND SK_ISNULL \<noteq> 0 \<longrightarrow>
            hnswgettuple E scan wd = Inr (False, scan, logged Call_pgstat_count_index_scan wd))"
  using assms by (simp add: hnswgettuple_def Let_def)

theorem hnswgettuple_ordering_argument_witness:
  "hnswgettuple demo_env (demo_scan None demo_so) demo_world
     = Inl (Elog_ERROR ''cannot scan hnsw index without order'')
   \<and> hnswgettuple demo_env (demo_scan (Some [demo_key 1 7]) demo_so) demo_world
     = Inr (False, demo_scan (Some [demo_key 1 7]) demo_so,
            logged Call_pgstat_count_index_scan demo_world)"
  using hnswgettuple_ordering_argument [where scan = "demo_scan None demo_so" and so = demo_so
      and E = demo_env and wd = demo_world]
    hnswgettuple_ordering_argument [where scan = "demo_scan (Some [demo_key 1 7]) demo_so"
      and so = demo_so and ob = "demo_key 1 7" and obs = "[]" and E = demo_env
      and wd = demo_world]
  by (simp add: demo_scan_def demo_so_def demo_key_def SK_ISNULL_def)

text \<open>
  C9. On the first call with an ordering argument that is not null: when a
  normalisation procedure is configured and \<open>HnswNormValue\<close> fails, the call returns
  \<open>false\<close> with the cursor unchanged, having made the statistics call and the
  normalisation call only; when none is configured, \<open>GetScanItems\<close> is run on the
  argument itself.
\<close>

theorem hnswgettuple_normalization:
  assumes "opaque scan = Some so" and "first so"
    and "orderByData scan = Some (ob # obs)" and "sk_flags ob AND SK_ISNULL = 0"
  shows "(normprocinfo so = Some np \<and> HnswNormValue E np (collation so) (sk_argument ob) = None
          \<longrightarrow> hnswgettuple E scan wd =
                Inr (False, scan,
                     logged (Call_HnswNormValue np (collation so) (sk_argument ob) None)
                       (logged Call_pgstat_count_index_scan wd)))
    \<and> (normprocinfo so = None
          \<longrightarrow> hnswgettuple E scan wd =
                (case GetScanItems E so (sk_argument ob) (logged Call_pgstat_count_index_scan wd) of
                   (so1, wd1) \<Rightarrow> Inr (scan_loop E scan (so1\<lparr>first := False\<rparr>) wd1)))"
  using assms by (simp add: hnswgettuple_def Let_def)

theorem hnswgettuple_normalization_witness:
  "hnswgettuple demo_env
      (demo_scan (Some [demo_key 0 0]) (demo_so\<lparr>normprocinfo := Some 2\<rparr>)) demo_world
     = Inr (False, demo_scan (Some [demo_key 0 0]) (demo_so\<lparr>normprocinfo := Some 2\<rparr>),
            \<lparr>elems = demo_elems,
             calls = [Call_pgstat_count_index_scan, Call_HnswNormValue 2 0 0 None]\<rparr>)
   \<and> calls (snd (snd (projr (hnswgettuple demo_env
        (demo_scan (Some [demo_key 0 7]) demo_so) demo_world))))
     = [Call_pgstat_count_index_scan, Call_GetEntryPoint (Some 0),
        Call_EntryCandidate 0 7 (demo_cand 0),
        Call_SearchLayer 7 [demo_cand 0] 1 2 [demo_cand 0],
        Call_SearchLayer 7 [demo_cand 0] 1 1 [demo_cand 0],
        Call_SearchLayer 7 [demo_cand 0] 40 0 [demo_cand 0, demo_cand 1, demo_cand 2],
        Call_ReadBuffer 4 5]"
  using hnswgettuple_normalization [where
      scan = "demo_scan (Some [demo_key 0 0]) (demo_so\<lparr>normprocinfo := Some 2\<rparr>)"
      and so = "demo_so\<lparr>normprocinfo := Some 2\<rparr>" and ob = "demo_key 0 0" and obs = "[]"
      and np = 2 and E = demo_env and wd = demo_world]
    hnswgettuple_normalization [where scan = "demo_scan (Some [demo_key 0 7]) demo_so"
      and so = demo_so and ob = "demo_key 0 7" and obs = "[]" and np = 2 and E = demo_env
      and wd = demo_world]
  by (simp add: demo_defs)

subsection \<open>Buffer pins\<close>

lemma pin_replay_over: "1 < length h \<Longrightarrow> pin_replay h cs = None"
  by (induction h cs rule: pin_replay.induct) auto

lemma pin_replay_append:
  "pin_replay h (cs @ ds) = Option.bind (pin_replay h cs) (\<lambda>h'. pin_replay h' ds)"
proof (induction h cs rule: pin_replay.induct)
  case (1 h)
  then show ?case by (simp add: pin_replay_over)
qed simp_all

lemma pin_replay_free:
  "filter is_pin cs = [] \<Longrightarrow> length h \<le> 1 \<Longrightarrow> pin_replay h cs = Some h"
  by (induction h cs rule: pin_replay.induct) (auto split: if_splits)

lemma searched_not_pin: "searched c = Some x \<Longrightarrow> \<not> is_pin c"
  by (cases c) simp_all

lemma searched_all_not_pin:
  "map searched cs = map (\<lambda>l. Some (f l)) ls \<Longrightarrow> filter is_pin cs = []"
proof (induction cs arbitrary: ls)
  case Nil
  then show ?case by simp
next
  case (Cons c cs)
  then obtain l ls' where "ls = l # ls'" by (cases ls) auto
  with Cons show ?case by (auto dest: searched_not_pin)
qed

lemma GetScanItems_calls:
  assumes "GetScanItems E so q wd = (so', wd')"
  shows "\<exists>cs. calls wd' = calls wd @ Call_GetEntryPoint (fst (GetEntryPoint E (elems wd))) # cs
           \<and> filter is_pin cs = []"
proof (cases "call_GetEntryPoint E wd")
  case (Pair r wd1)
  then have l1: "calls wd1 = calls wd @ [Call_GetEntryPoint (fst (GetEntryPoint E (elems wd)))]"
    by (auto simp: call_GetEntryPoint_def split: prod.splits)
  show ?thesis
  proof (cases r)
    case None
    with assms Pair l1 show ?thesis by (simp add: GetScanItems_def)
  next
    case (Some e)
    obtain c wd2 where c: "call_EntryCandidate E e q (procinfo so) (collation so) wd1 = (c, wd2)"
      by (cases "call_EntryCandidate E e q (procinfo so) (collation so) wd1")
    then have l2: "calls wd2 = calls wd1 @ [Call_EntryCandidate e q c]"
      by (auto simp: call_EntryCandidate_def split: prod.splits)
    obtain ep wd3 where d: "layer_descent E so q [c] (level (elems wd2 e)) wd2 = (ep, wd3)"
      by (cases "layer_descent E so q [c] (level (elems wd2 e)) wd2")
    obtain r' wd4 where
      s: "call_SearchLayer E q ep (hnsw_ef_search E) 0 (procinfo so) (collation so) wd3
            = (r', wd4)"
      by (cases "call_SearchLayer E q ep (hnsw_ef_search E) 0 (procinfo so) (collation so) wd3")
    from assms Pair Some c d s have res: "wd' = wd4"
      by (simp add: GetScanItems_def)
    from descent_then_search_calls [OF d s] res obtain cs where
      cs: "calls wd' = calls wd2 @ cs"
          "map searched cs = map (\<lambda>l. Some (q, 1, l)) (rev [1..level (elems wd2 e)])
                 @ [Some (q, hnsw_ef_search E, 0)]"
      by blast
    from cs(2) have "map searched cs = map (\<lambda>l. Some l)
        (map (\<lambda>l. (q, 1, l)) (rev [1..level (elems wd2 e)]) @ [(q, hnsw_ef_search E, 0)])"
      by simp
    then have "filter is_pin cs = []" by (rule searched_all_not_pin)
    with cs(1) l1 l2 show ?thesis by simp
  qed
qed

lemma cursor_pins_Some: "opaque scan = Some so \<Longrightarrow> cursor_pins scan = so_pins so"
  by (simp add: cursor_pins_def so_pins_def)

lemma cursor_pins_length: "length (cursor_pins scan) \<le> 1" "length (cursor_pins scan) \<le> Suc 0"
  by (simp_all add: cursor_pins_def split: option.splits)

lemma scan_loop_calls:
  assumes "scan_loop E scan so wd = (r, scan', wd')"
  shows "\<exists>so'. opaque scan' = Some so' \<and>
     (if r
      then (\<exists>blk. calls wd' = calls wd @ map Call_ReleaseBuffer (so_pins so)
                                  @ [Call_ReadBuffer blk (ReadBuffer E blk)]
                 \<and> buf so' = ReadBuffer E blk)
      else calls wd' = calls wd \<and> buf so' = buf so)"
  using assms
proof (induction E scan so wd rule: scan_loop.induct)
  case (1 E scan so wd)
  show ?case
  proof (cases "w so" rule: rev_cases)
    case Nil
    with "1.prems" show ?thesis by (auto simp: scan_loop_empty)
  next
    case (snoc ws hc)
    show ?thesis
    proof (cases "heaptids (elems wd (element hc)) = []")
      case True
      with snoc "1.prems" have
        eq: "scan_loop E scan (so\<lparr>w := butlast (w so)\<rparr>) wd = (r, scan', wd')"
        by (simp add: scan_loop_drop)
      have sp: "so_pins (so\<lparr>w := butlast (w so)\<rparr>) = so_pins so"
               "buf (so\<lparr>w := butlast (w so)\<rparr>) = buf so"
        by (simp_all add: so_pins_def)
      have h1: "0 < length (w so)" using snoc by simp
      have h2: "length (heaptids (elems wd (element (last (w so))))) = 0"
        using snoc True by simp
      from "1.IH" [OF h1 refl h2 eq] show ?thesis unfolding sp .
    next
      case False
      with snoc "1.prems" show ?thesis
        by (auto simp: scan_loop_pop so_pins_def)
    qed
  qed
qed

lemma hnswgettuple_calls:
  assumes "hnswgettuple E scan wd = Inr (r, scan', wd')"
  shows "\<exists>pre. filter is_pin pre = []
     \<and> (map_option first (opaque scan) = Some True
          \<and> map_option first (opaque scan') = Some False
        \<longrightarrow> Call_GetEntryPoint (fst (GetEntryPoint E (elems wd))) \<in> set pre)
     \<and> (if r
      then (\<exists>blk. calls wd' = calls wd @ pre @ map Call_ReleaseBuffer (cursor_pins scan)
                                  @ [Call_ReadBuffer blk (ReadBuffer E blk)]
                 \<and> map_option buf (opaque scan') = Some (ReadBuffer E blk))
      else calls wd' = calls wd @ pre \<and> map_option buf (opaque scan') = map_option buf (opaque scan))"
proof -
  from assms obtain so where so: "opaque scan = Some so"
    by (auto simp: hnswgettuple_def split: option.splits)
  have loop: ?thesis
    if l: "scan_loop E scan so1 wd1 = (r, scan', wd')"
      and p: "calls wd1 = calls wd @ pre" "filter is_pin pre = []" "buf so1 = buf so"
             "first so \<longrightarrow> Call_GetEntryPoint (fst (GetEntryPoint E (elems wd))) \<in> set pre"
    for so1 wd1 pre
  proof -
    from scan_loop_calls [OF l] obtain so' where
      o: "opaque scan' = Some so'"
      and c: "if r
        then (\<exists>blk. calls wd' = calls wd1 @ map Call_ReleaseBuffer (so_pins so1)
                                    @ [Call_ReadBuffer blk (ReadBuffer E blk)]
                   \<and> buf so' = ReadBuffer E blk)
        else calls wd' = calls wd1 \<and> buf so' = buf so1"
      by blast
    have sp: "so_pins so1 = cursor_pins scan"
      using p(3) so by (simp add: cursor_pins_Some so_pins_def)
    have g: "map_option first (opaque scan) = Some True
          \<and> map_option first (opaque scan') = Some False
        \<longrightarrow> Call_GetEntryPoint (fst (GetEntryPoint E (elems wd))) \<in> set pre"
      using p(4) so by simp
    show ?thesis
    proof (cases r)
      case True
      with c sp obtain blk where
        "calls wd' = calls wd1 @ map Call_ReleaseBuffer (cursor_pins scan)
                                    @ [Call_ReadBuffer blk (ReadBuffer E blk)]"
        "buf so' = ReadBuffer E blk"
        by auto
      with p(1,2) g o True show ?thesis
        by (intro exI [of _ pre]) auto
    next
      case False
      with c have "calls wd' = calls wd1" "buf so' = buf so1" by simp_all
      with p(1,2,3) g o so False show ?thesis
        by (intro exI [of _ pre]) auto
    qed
  qed
  show ?thesis
  proof (cases "first so")
    case False
    with assms so have "scan_loop E scan so wd = (r, scan', wd')"
      by (simp add: hnswgettuple_started)
    from loop [OF this, of "[]"] False show ?thesis by simp
  next
    case True
    from assms so True obtain ob obs where ob: "orderByData scan = Some (ob # obs)"
      by (auto simp: hnswgettuple_def Let_def split: option.splits list.splits)
    let ?wd1 = "logged Call_pgstat_count_index_scan wd"
    show ?thesis
    proof (cases "sk_flags ob AND SK_ISNULL \<noteq> 0")
      case null: True
      with assms so True ob have "r = False" "scan' = scan" "wd' = ?wd1"
        by (simp_all add: hnswgettuple_def Let_def)
      with so show ?thesis by (intro exI [of _ "[Call_pgstat_count_index_scan]"]) simp
    next
      case nonnull: False
      show ?thesis
      proof (cases "normprocinfo so")
        case None
        obtain so1 wd3 where g: "GetScanItems E so (sk_argument ob) ?wd1 = (so1, wd3)"
          by (cases "GetScanItems E so (sk_argument ob) ?wd1")
        with assms so True ob nonnull None have
          l: "scan_loop E scan (so1\<lparr>first := False\<rparr>) wd3 = (r, scan', wd')"
          by (simp add: hnswgettuple_def Let_def)
        from GetScanItems_calls [OF g] obtain cs where
          cs: "calls wd3 = calls ?wd1 @ Call_GetEntryPoint (fst (GetEntryPoint E (elems ?wd1))) # cs"
              "filter is_pin cs = []" by blast
        have "buf so1 = buf so" using g
          by (auto simp: GetScanItems_def split: prod.splits option.splits)
        with loop [OF l, of "Call_pgstat_count_index_scan
             # Call_GetEntryPoint (fst (GetEntryPoint E (elems ?wd1))) # cs"] cs
        show ?thesis by simp
      next
        case (Some np)
        let ?r = "HnswNormValue E np (collation so) (sk_argument ob)"
        let ?wd2 = "logged (Call_HnswNormValue np (collation so) (sk_argument ob) ?r) ?wd1"
        show ?thesis
        proof (cases ?r)
          case nofit: None
          with assms so True ob nonnull Some have "r = False" "scan' = scan" "wd' = ?wd2"
            by (simp_all add: hnswgettuple_def Let_def)
          with so show ?thesis
            by (intro exI [of _ "[Call_pgstat_count_index_scan,
                  Call_HnswNormValue np (collation so) (sk_argument ob) ?r]"]) simp
        next
          case (Some v)
          obtain so1 wd3 where g: "GetScanItems E so v ?wd2 = (so1, wd3)"
            by (cases "GetScanItems E so v ?wd2")
          with assms so True ob nonnull Some \<open>normprocinfo so = Some np\<close> have
            l: "scan_loop E scan (so1\<lparr>first := False\<rparr>) wd3 = (r, scan', wd')"
            by (simp add: hnswgettuple_def Let_def)
          from GetScanItems_calls [OF g] obtain cs where
            cs: "calls wd3 = calls ?wd2 @ Call_GetEntryPoint (fst (GetEntryPoint E (elems ?wd2))) # cs"
                "filter is_pin cs = []" by blast
          have "buf so1 = buf so" using g
            by (auto simp: GetScanItems_def split: prod.splits option.splits)
          with loop [OF l, of "Call_pgstat_count_index_scan
               # Call_HnswNormValue np (collation so) (sk_argument ob) ?r
               # Call_GetEntryPoint (fst (GetEntryPoint E (elems ?wd2))) # cs"] cs
          show ?thesis by simp
        qed
      qed
    qed
  qed
qed

lemma cursor_pins_buf:
  "map_option buf (opaque scan') = map_option buf (opaque scan) \<Longrightarrow>
     cursor_pins scan' = cursor_pins scan"
  by (cases "opaque scan"; cases "opaque scan'") (auto simp: cursor_pins_def)

lemma pin_replay_deliver:
  "length h \<le> 1 \<Longrightarrow> pin_replay h (map Call_ReleaseBuffer h @ [Call_ReadBuffer blk b]) = Some [b]"
  by (cases h) auto

lemma pin_replay_release: "length h \<le> 1 \<Longrightarrow> pin_replay h (map Call_ReleaseBuffer h) = Some []"
  by (cases h) auto

lemma hnswgettuple_pins:
  assumes "\<forall>blk. BufferIsValid (ReadBuffer E blk)"
    and "hnswgettuple E scan wd = Inr (r, scan', wd')"
  shows "\<exists>ds. calls wd' = calls wd @ ds
            \<and> pin_replay (cursor_pins scan) ds = Some (cursor_pins scan')"
proof -
  from hnswgettuple_calls [OF assms(2)] obtain pre where
    pre: "filter is_pin pre = []"
    and c: "if r
      then (\<exists>blk. calls wd' = calls wd @ pre @ map Call_ReleaseBuffer (cursor_pins scan)
                                  @ [Call_ReadBuffer blk (ReadBuffer E blk)]
                 \<and> map_option buf (opaque scan') = Some (ReadBuffer E blk))
      else calls wd' = calls wd @ pre
         \<and> map_option buf (opaque scan') = map_option buf (opaque scan)"
    by blast
  have p: "pin_replay (cursor_pins scan) pre = Some (cursor_pins scan)"
    using pre by (rule pin_replay_free) (rule cursor_pins_length)
  show ?thesis
  proof (cases r)
    case False
    with c have "calls wd' = calls wd @ pre" "cursor_pins scan' = cursor_pins scan"
      by (auto intro: cursor_pins_buf)
    with p show ?thesis by simp
  next
    case True
    with c obtain blk where
      b: "calls wd' = calls wd @ (pre @ map Call_ReleaseBuffer (cursor_pins scan)
                                  @ [Call_ReadBuffer blk (ReadBuffer E blk)])"
         "map_option buf (opaque scan') = Some (ReadBuffer E blk)"
      by auto
    from b(2) assms(1) have "cursor_pins scan' = [ReadBuffer E blk]"
      by (auto simp: cursor_pins_def split: option.splits)
    moreover have "pin_replay (cursor_pins scan)
        (pre @ map Call_ReleaseBuffer (cursor_pins scan) @ [Call_ReadBuffer blk (ReadBuffer E blk)])
        = Some [ReadBuffer E blk]"
      by (simp add: pin_replay_append [of _ pre] p pin_replay_deliver cursor_pins_length)
    ultimately show ?thesis using b(1) by metis
  qed
qed

lemma hnswrescan_opaque:
  "hnswrescan scan keys orderbys = Inr scan' \<Longrightarrow>
     \<exists>so. opaque scan = Some so \<and> opaque scan' = Some (so\<lparr>first := True, w := []\<rparr>)"
  by (auto simp: hnswrescan_def split: option.splits sum.splits)

lemma hnswrescan_pins:
  "hnswrescan scan keys orderbys = Inr scan' \<Longrightarrow> cursor_pins scan' = cursor_pins scan"
  by (drule hnswrescan_opaque) (auto simp: cursor_pins_def)

lemma hnswendscan_calls:
  "hnswendscan E scan wd = Inr (scan', wd') \<Longrightarrow>
     scan' = scan\<lparr>opaque := None\<rparr>
     \<and> wd' = wd\<lparr>calls := calls wd @ map Call_ReleaseBuffer (cursor_pins scan)\<rparr>"
  by (auto simp: hnswendscan_def cursor_pins_def logged_def split: option.splits)

lemma run_scan_pins:
  assumes "\<forall>blk. BufferIsValid (ReadBuffer E blk)"
  shows "run_scan E ops (scan, wd) = Inr (scan', wd') \<Longrightarrow>
     \<exists>ds. calls wd' = calls wd @ ds
        \<and> pin_replay (cursor_pins scan) ds = Some (cursor_pins scan')"
proof (induction ops arbitrary: scan wd)
  case Nil
  then show ?case by (auto simp: cursor_pins_length)
next
  case (Cons op ops)
  have chain: ?case
    if s: "calls wd1 = calls wd @ d1" "pin_replay (cursor_pins scan) d1 = Some (cursor_pins scan1)"
      and r: "run_scan E ops (scan1, wd1) = Inr (scan', wd')" for scan1 wd1 d1
  proof -
    from Cons.IH [OF r] obtain ds where
      "calls wd' = calls wd1 @ ds" "pin_replay (cursor_pins scan1) ds = Some (cursor_pins scan')"
      by blast
    with s have "calls wd' = calls wd @ (d1 @ ds)"
      "pin_replay (cursor_pins scan) (d1 @ ds) = Some (cursor_pins scan')"
      by (simp_all add: pin_replay_append)
    then show ?thesis by blast
  qed
  show ?case
  proof (cases op)
    case (Rescan keys orderbys)
    with Cons.prems obtain scan1 where
      s: "hnswrescan scan keys orderbys = Inr scan1" "run_scan E ops (scan1, wd) = Inr (scan', wd')"
      by (auto split: sum.splits)
    from hnswrescan_pins [OF s(1)] have "pin_replay (cursor_pins scan) [] = Some (cursor_pins scan1)"
      by (simp add: cursor_pins_length)
    from chain [OF _ this s(2)] show ?thesis by simp
  next
    case GetTuple
    with Cons.prems obtain r scan1 wd1 where
      s: "hnswgettuple E scan wd = Inr (r, scan1, wd1)"
         "run_scan E ops (scan1, wd1) = Inr (scan', wd')"
      by (auto split: sum.splits)
    from hnswgettuple_pins [OF assms s(1)] obtain d1 where
      "calls wd1 = calls wd @ d1" "pin_replay (cursor_pins scan) d1 = Some (cursor_pins scan1)"
      by blast
    from chain [OF this s(2)] show ?thesis .
  next
    case EndScan
    with Cons.prems obtain scan1 wd1 where
      s: "hnswendscan E scan wd = Inr (scan1, wd1)"
         "run_scan E ops (scan1, wd1) = Inr (scan', wd')"
      by (auto split: sum.splits)
    from hnswendscan_calls [OF s(1)] have
      e: "scan1 = scan\<lparr>opaque := None\<rparr>"
         "calls wd1 = calls wd @ map Call_ReleaseBuffer (cursor_pins scan)"
      by simp_all
    from e(1) have "cursor_pins scan1 = []" by (simp add: cursor_pins_def)
    then have "pin_replay (cursor_pins scan) (map Call_ReleaseBuffer (cursor_pins scan))
         = Some (cursor_pins scan1)"
      by (simp add: pin_replay_release cursor_pins_length)
    with e(2) have
      "calls wd1 = calls wd @ map Call_ReleaseBuffer (cursor_pins scan)"
      "pin_replay (cursor_pins scan) (map Call_ReleaseBuffer (cursor_pins scan))
         = Some (cursor_pins scan1)"
      by simp_all
    from chain [OF this s(2)] show ?thesis .
  qed
qed

text \<open>
  C3. Provided \<open>ReadBuffer\<close> returns valid buffers: after any successful sequence
  of rescans, fetches and a final end of scan on a freshly begun scan, the buffer calls made
  so far replay without ever holding more than one pin and without releasing a buffer that
  is not pinned, and the pin held at the end is the one in \<open>so->buf\<close>, if any. A further
  fetch that delivers a tuple makes exactly these buffer calls: the release of the pin held,
  if there is one, and then one \<open>ReadBuffer\<close>, whose buffer becomes the pin held. An end
  of scan makes exactly the release of the pin held, if there is one, and leaves none.
\<close>

theorem one_pin_at_a_time:
  assumes "\<forall>blk. BufferIsValid (ReadBuffer E blk)"
    and "run_scan E ops (hnswbeginscan E nkeys norderbys, wd0) = Inr (scan, wd)"
  shows "(\<exists>cs. calls wd = calls wd0 @ cs \<and> pin_replay [] cs = Some (cursor_pins scan))
    \<and> (\<forall>scan' wd'. hnswgettuple E scan wd = Inr (True, scan', wd') \<longrightarrow>
         (\<exists>blk b. filter is_pin (drop (length (calls wd)) (calls wd'))
                    = map Call_ReleaseBuffer (cursor_pins scan) @ [Call_ReadBuffer blk b]
                 \<and> cursor_pins scan' = [b]))
    \<and> (\<forall>scan' wd'. hnswendscan E scan wd = Inr (scan', wd') \<longrightarrow>
         drop (length (calls wd)) (calls wd') = map Call_ReleaseBuffer (cursor_pins scan)
         \<and> cursor_pins scan' = [])"
proof (intro conjI allI impI)
  have "cursor_pins (hnswbeginscan E nkeys norderbys) = []"
    by (simp add: hnswbeginscan_def cursor_pins_def BufferIsValid_def)
  with run_scan_pins [OF assms] show
    "\<exists>cs. calls wd = calls wd0 @ cs \<and> pin_replay [] cs = Some (cursor_pins scan)"
    by simp
next
  fix scan' wd'
  assume g: "hnswgettuple E scan wd = Inr (True, scan', wd')"
  from hnswgettuple_calls [OF g] obtain pre blk where
    p: "filter is_pin pre = []"
       "calls wd' = calls wd @ pre @ map Call_ReleaseBuffer (cursor_pins scan)
                                  @ [Call_ReadBuffer blk (ReadBuffer E blk)]"
       "map_option buf (opaque scan') = Some (ReadBuffer E blk)"
    by auto
  from p(3) assms(1) have "cursor_pins scan' = [ReadBuffer E blk]"
    by (auto simp: cursor_pins_def split: option.splits)
  moreover have "filter is_pin (map Call_ReleaseBuffer (cursor_pins scan))
      = map Call_ReleaseBuffer (cursor_pins scan)"
    by (simp add: cursor_pins_def split: option.splits)
  ultimately show "\<exists>blk b. filter is_pin (drop (length (calls wd)) (calls wd'))
                    = map Call_ReleaseBuffer (cursor_pins scan) @ [Call_ReadBuffer blk b]
                 \<and> cursor_pins scan' = [b]"
    using p(1,2) by simp
next
  fix scan' wd'
  assume "hnswendscan E scan wd = Inr (scan', wd')"
  from hnswendscan_calls [OF this]
  show "drop (length (calls wd)) (calls wd') = map Call_ReleaseBuffer (cursor_pins scan)"
    by simp
next
  fix scan' wd'
  assume "hnswendscan E scan wd = Inr (scan', wd')"
  from hnswendscan_calls [OF this]
  show "cursor_pins scan' = []"
    by (simp add: cursor_pins_def)
qed

theorem one_pin_at_a_time_witness:
  "\<exists>scan wd cs. run_scan demo_env
        [Rescan None (Some [demo_key 0 7]), GetTuple, GetTuple, GetTuple, EndScan]
        (hnswbeginscan demo_env 0 1, demo_world) = Inr (scan, wd)
      \<and> calls wd = calls demo_world @ cs \<and> pin_replay [] cs = Some (cursor_pins scan)
      \<and> cursor_pins scan = []"
proof -
  have v: "\<forall>blk. BufferIsValid (ReadBuffer demo_env blk)"
    by (simp add: demo_env_def BufferIsValid_def InvalidBuffer_def)
  obtain scan wd where r: "run_scan demo_env
        [Rescan None (Some [demo_key 0 7]), GetTuple, GetTuple, GetTuple, EndScan]
        (hnswbeginscan demo_env 0 1, demo_world) = Inr (scan, wd)"
    and c: "cursor_pins scan = []"
    by (simp add: demo_defs)
  from one_pin_at_a_time [OF v r] c r show ?thesis by blast
qed

subsection \<open>Rescan\<close>

text \<open>
  C6. As stated the claim fails: after a fetch that delivered a tuple, a rescan
  leaves buffer 5 in \<open>so->buf\<close>, and the pin taken for it has not been released.
\<close>

theorem hnswrescan_releases_pin_counterexample:
  "cursor_pins (fst (projr (run_scan demo_env
        [Rescan None (Some [demo_key 0 7]), GetTuple, Rescan None (Some [demo_key 0 8])]
        (hnswbeginscan demo_env 0 1, demo_world)))) = [5]
   \<and> pin_replay [] (calls (snd (projr (run_scan demo_env
        [Rescan None (Some [demo_key 0 7]), GetTuple, Rescan None (Some [demo_key 0 8])]
        (hnswbeginscan demo_env 0 1, demo_world))))) = Some [5]"
  by (simp add: demo_defs)

text \<open>
  C6, amended. A rescan leaves \<open>so->buf\<close>, and with it the pin the cursor
  holds, as it is; an end of scan after the rescan releases that pin.
\<close>

theorem hnswrescan_keeps_pin:
  assumes "hnswrescan scan keys orderbys = Inr scan'"
  shows "map_option buf (opaque scan') = map_option buf (opaque scan)
    \<and> cursor_pins scan' = cursor_pins scan
    \<and> hnswendscan E scan' wd =
        Inr (scan'\<lparr>opaque := None\<rparr>,
             wd\<lparr>calls := calls wd @ map Call_ReleaseBuffer (cursor_pins scan)\<rparr>)"
proof -
  from hnswrescan_opaque [OF assms] obtain so where
    so: "opaque scan = Some so" "opaque scan' = Some (so\<lparr>first := True, w := []\<rparr>)"
    by blast
  then have "map_option buf (opaque scan') = map_option buf (opaque scan)" by simp
  moreover from this have "cursor_pins scan' = cursor_pins scan" by (rule cursor_pins_buf)
  moreover from so have "hnswendscan E scan' wd =
        Inr (scan'\<lparr>opaque := None\<rparr>,
             wd\<lparr>calls := calls wd @ map Call_ReleaseBuffer (cursor_pins scan)\<rparr>)"
    by (simp add: hnswendscan_def cursor_pins_def logged_def)
  ultimately show ?thesis by simp
qed

theorem hnswrescan_keeps_pin_witness:
  "hnswrescan (demo_scan (Some [demo_key 0 7]) (demo_so\<lparr>first := False, buf := 5\<rparr>))
       None (Some [demo_key 0 8])
     = Inr (demo_scan (Some [demo_key 0 8]) (demo_so\<lparr>buf := 5\<rparr>))
   \<and> cursor_pins (demo_scan (Some [demo_key 0 8]) (demo_so\<lparr>buf := 5\<rparr>)) = [5]
   \<and> hnswendscan demo_env (demo_scan (Some [demo_key 0 8]) (demo_so\<lparr>buf := 5\<rparr>)) demo_world
     = Inr ((demo_scan (Some [demo_key 0 8]) (demo_so\<lparr>buf := 5\<rparr>))\<lparr>opaque := None\<rparr>,
            \<lparr>elems = demo_elems, calls = [Call_ReleaseBuffer 5]\<rparr>)"
proof -
  have r: "hnswrescan (demo_scan (Some [demo_key 0 7]) (demo_so\<lparr>first := False, buf := 5\<rparr>))
       None (Some [demo_key 0 8])
     = Inr (demo_scan (Some [demo_key 0 8]) (demo_so\<lparr>buf := 5\<rparr>))"
    by (simp add: hnswrescan_def copy_keys_def memmove_keys_def demo_scan_def demo_so_def)
  from hnswrescan_keeps_pin [OF r, of demo_env demo_world] r show ?thesis
    by (simp add: cursor_pins_def demo_scan_def demo_so_def BufferIsValid_def InvalidBuffer_def
          demo_world_def)
qed

lemma hnswgettuple_first_search:
  assumes so: "opaque scan = Some so" and f: "first so"
    and ob: "orderByData scan = Some (ob # obs)" and nn: "sk_flags ob AND SK_ISNULL = 0"
    and q: "(case normprocinfo so of None \<Rightarrow> q = sk_argument ob
             | Some np \<Rightarrow> HnswNormValue E np (collation so) (sk_argument ob) = Some q)"
  shows "hnswgettuple E scan wd =
     Inr (scan_loop E scan
            ((case fst (runQuery_spec E q (procinfo so) (collation so) (elems wd)) of
                None \<Rightarrow> so | Some r \<Rightarrow> so\<lparr>w := r\<rparr>)\<lparr>first := False\<rparr>)
            (wd\<lparr>elems := snd (runQuery_spec E q (procinfo so) (collation so) (elems wd)),
                calls := calls wd @ Call_pgstat_count_index_scan
                  # (case normprocinfo so of None \<Rightarrow> []
                     | Some np \<Rightarrow> [Call_HnswNormValue np (collation so) (sk_argument ob) (Some q)])
                  @ runQuery_calls E q (procinfo so) (collation so) (elems wd)\<rparr>))"
proof -
  let ?pre = "Call_pgstat_count_index_scan
                  # (case normprocinfo so of None \<Rightarrow> []
                     | Some np \<Rightarrow> [Call_HnswNormValue np (collation so) (sk_argument ob) (Some q)])"
  let ?wdq = "wd\<lparr>calls := calls wd @ ?pre\<rparr>"
  obtain so1 wd3 where g: "GetScanItems E so q ?wdq = (so1, wd3)"
    by (cases "GetScanItems E so q ?wdq")
  have h: "hnswgettuple E scan wd = Inr (scan_loop E scan (so1\<lparr>first := False\<rparr>) wd3)"
  proof (cases "normprocinfo so")
    case None
    with q have "q = sk_argument ob" by simp
    with so f ob nn None g show ?thesis
      by (simp add: hnswgettuple_def Let_def logged_def)
  next
    case (Some np)
    with q have "HnswNormValue E np (collation so) (sk_argument ob) = Some q" by simp
    with so f ob nn Some g show ?thesis
      by (simp add: hnswgettuple_def Let_def logged_def)
  qed
  from GetScanItems_refines [OF g] have
    r: "so1 = (case fst (runQuery_spec E q (procinfo so) (collation so) (elems wd)) of
                  None \<Rightarrow> so | Some r \<Rightarrow> so\<lparr>w := r\<rparr>)"
       "elems wd3 = snd (runQuery_spec E q (procinfo so) (collation so) (elems wd))"
       "calls wd3 = calls wd @ ?pre @ runQuery_calls E q (procinfo so) (collation so) (elems wd)"
    by simp_all
  have "wd3 = wd\<lparr>elems := elems wd3, calls := calls wd3\<rparr>"
    by (cases wd, cases wd3) simp
  with r have "wd3 = wd\<lparr>elems := snd (runQuery_spec E q (procinfo so) (collation so) (elems wd)),
                calls := calls wd @ ?pre
                  @ runQuery_calls E q (procinfo so) (collation so) (elems wd)\<rparr>"
    by simp
  with h r(1) show ?thesis by simp
qed

text \<open>
  C7. After a successful rescan the result list is empty and the cursor is in the
  not-started state. The outcome of the rescan is the same whatever the result list and the
  started flag were before, so nothing of the old list can reach a later call. The ordering
  keys passed to the rescan are the cursor's keys afterwards. And the next call, when its
  ordering argument is not null and normalisation does not fail, runs the whole driver
  anew on that argument: it returns what the result loop yields on the list that the
  specification's driver computes for the new query (empty when there is no entry point),
  having made the statistics call, the normalisation call if one is configured, and every
  call of the driver. In particular a later call that leaves the cursor started has called
  \<open>GetEntryPoint\<close>.
\<close>

theorem hnswrescan_resets:
  assumes "hnswrescan scan keys orderbys = Inr scan'"
  shows "\<exists>so'. opaque scan' = Some so' \<and> w so' = [] \<and> first so'
    \<and> (\<forall>ws f. hnswrescan (scan\<lparr>opaque := map_option (\<lambda>so. so\<lparr>w := ws, first := f\<rparr>) (opaque scan)\<rparr>)
                  keys orderbys = Inr scan')
    \<and> (\<forall>os old. orderbys = Some os \<and> orderByData scan = Some old \<and> 0 < numberOfOrderBys scan
          \<longrightarrow> orderByData scan' = Some (take (nat (numberOfOrderBys scan)) os
                                          @ drop (nat (numberOfOrderBys scan)) old))
    \<and> (\<forall>E wd ob obs q.
          orderByData scan' = Some (ob # obs) \<and> sk_flags ob AND SK_ISNULL = 0
            \<and> (case normprocinfo so' of None \<Rightarrow> q = sk_argument ob
                | Some np \<Rightarrow> HnswNormValue E np (collation so') (sk_argument ob) = Some q)
          \<longrightarrow> hnswgettuple E scan' wd =
                Inr (scan_loop E scan'
                       (so'\<lparr>w := (case fst (runQuery_spec E q (procinfo so') (collation so')
                                               (elems wd)) of
                                     None \<Rightarrow> [] | Some r \<Rightarrow> r),
                            first := False\<rparr>)
                       (wd\<lparr>elems := snd (runQuery_spec E q (procinfo so') (collation so')
                                            (elems wd)),
                           calls := calls wd @ Call_pgstat_count_index_scan
                             # (case normprocinfo so' of None \<Rightarrow> []
                                | Some np \<Rightarrow> [Call_HnswNormValue np (collation so')
                                               (sk_argument ob) (Some q)])
                             @ runQuery_calls E q (procinfo so') (collation so') (elems wd)\<rparr>)))
    \<and> (\<forall>E wd r scan'' wd'' so''.
          hnswgettuple E scan' wd = Inr (r, scan'', wd'') \<and> opaque scan'' = Some so''
            \<and> \<not> first so''
          \<longrightarrow> Call_GetEntryPoint (fst (GetEntryPoint E (elems wd)))
                \<in> set (drop (length (calls wd)) (calls wd'')))"
proof -
  from hnswrescan_opaque [OF assms] obtain so where
    so: "opaque scan = Some so" and so': "opaque scan' = Some (so\<lparr>first := True, w := []\<rparr>)"
    by blast
  let ?so' = "so\<lparr>first := True, w := []\<rparr>"
  have indep: "hnswrescan (scan\<lparr>opaque := map_option (\<lambda>so. so\<lparr>w := ws, first := f\<rparr>) (opaque scan)\<rparr>)
                  keys orderbys = Inr scan'" for ws f
    using assms by (auto simp: hnswrescan_def split: option.splits sum.splits)
  have keys: "orderByData scan' = Some (take (nat (numberOfOrderBys scan)) os
                                          @ drop (nat (numberOfOrderBys scan)) old)"
    if "orderbys = Some os \<and> orderByData scan = Some old \<and> 0 < numberOfOrderBys scan" for os old
    using assms that
    by (auto simp: hnswrescan_def copy_keys_def memmove_keys_def
             split: option.splits sum.splits if_splits)
  have search: "hnswgettuple E scan' wd =
                Inr (scan_loop E scan'
                       (?so'\<lparr>w := (case fst (runQuery_spec E q (procinfo ?so') (collation ?so')
                                               (elems wd)) of
                                     None \<Rightarrow> [] | Some r \<Rightarrow> r),
                            first := False\<rparr>)
                       (wd\<lparr>elems := snd (runQuery_spec E q (procinfo ?so') (collation ?so')
                                            (elems wd)),
                           calls := calls wd @ Call_pgstat_count_index_scan
                             # (case normprocinfo ?so' of None \<Rightarrow> []
                                | Some np \<Rightarrow> [Call_HnswNormValue np (collation ?so')
                                               (sk_argument ob) (Some q)])
                             @ runQuery_calls E q (procinfo ?so') (collation ?so') (elems wd)\<rparr>))"
    if a: "orderByData scan' = Some (ob # obs) \<and> sk_flags ob AND SK_ISNULL = 0
            \<and> (case normprocinfo ?so' of None \<Rightarrow> q = sk_argument ob
                | Some np \<Rightarrow> HnswNormValue E np (collation ?so') (sk_argument ob) = Some q)"
    for E wd ob obs q
  proof -
    have f: "first ?so'" by simp
    from a have 1: "orderByData scan' = Some (ob # obs)" and 2: "sk_flags ob AND SK_ISNULL = 0"
      and 3: "(case normprocinfo ?so' of None \<Rightarrow> q = sk_argument ob
                | Some np \<Rightarrow> HnswNormValue E np (collation ?so') (sk_argument ob) = Some q)"
      by simp_all
    have e: "(case x of None \<Rightarrow> ?so' | Some r \<Rightarrow> ?so'\<lparr>w := r\<rparr>)\<lparr>first := False\<rparr>
        = ?so'\<lparr>w := (case x of None \<Rightarrow> [] | Some r \<Rightarrow> r), first := False\<rparr>" for x
      by (cases x) simp_all
    from hnswgettuple_first_search [OF so' f 1 2 3, of wd] show ?thesis
      unfolding e .
  qed
  have rerun: "Call_GetEntryPoint (fst (GetEntryPoint E (elems wd)))
                \<in> set (drop (length (calls wd)) (calls wd''))"
    if a: "hnswgettuple E scan' wd = Inr (r, scan'', wd'') \<and> opaque scan'' = Some so''
            \<and> \<not> first so''" for E wd r scan'' wd'' so''
  proof -
    from so' have f: "map_option first (opaque scan') = Some True" by simp
    from a have g: "hnswgettuple E scan' wd = Inr (r, scan'', wd'')"
      and f': "map_option first (opaque scan'') = Some False" by simp_all
    from hnswgettuple_calls [OF g] f f' obtain pre where
      p: "Call_GetEntryPoint (fst (GetEntryPoint E (elems wd))) \<in> set pre"
      and c: "if r
        then (\<exists>blk. calls wd'' = calls wd @ pre @ map Call_ReleaseBuffer (cursor_pins scan')
                                    @ [Call_ReadBuffer blk (ReadBuffer E blk)]
                   \<and> map_option buf (opaque scan'') = Some (ReadBuffer E blk))
        else calls wd'' = calls wd @ pre
           \<and> map_option buf (opaque scan'') = map_option buf (opaque scan')"
      by blast
    show ?thesis
    proof (cases r)
      case True
      with c p show ?thesis by auto
    next
      case False
      with c p show ?thesis by auto
    qed
  qed
  have "w ?so' = []" "first ?so'" by simp_all
  with so' indep keys search rerun show ?thesis
    by (intro exI [of _ ?so'] conjI allI impI) blast+
qed

theorem hnswrescan_resets_witness:
  "hnswrescan (demo_scan (Some [demo_key 0 7])
                 (demo_so\<lparr>first := False, w := [demo_cand 2, demo_cand 1]\<rparr>))
       None (Some [demo_key 0 8])
     = Inr (demo_scan (Some [demo_key 0 8]) demo_so)
   \<and> hnswrescan (demo_scan (Some [demo_key 0 7]) (demo_so\<lparr>first := False, w := [demo_cand 2]\<rparr>))
       None (Some [demo_key 0 8])
     = Inr (demo_scan (Some [demo_key 0 8]) demo_so)
   \<and> fst (projr (hnswgettuple hop_env (demo_scan (Some [demo_key 0 8]) demo_so) demo_world))
   \<and> xs_heaptid (fst (snd (projr (hnswgettuple hop_env
          (demo_scan (Some [demo_key 0 8]) demo_so) demo_world)))) = (10, 1)
   \<and> map_option w (opaque (fst (snd (projr (hnswgettuple hop_env
          (demo_scan (Some [demo_key 0 8]) demo_so) demo_world)))))
       = Some [demo_cand 2, demo_cand 0]
   \<and> calls (snd (snd (projr (hnswgettuple hop_env
          (demo_scan (Some [demo_key 0 8]) demo_so) demo_world))))
       = [Call_pgstat_count_index_scan, Call_GetEntryPoint (Some 0),
          Call_EntryCandidate 0 8 (demo_cand 0),
          Call_SearchLayer 8 [demo_cand 0] 1 2 [demo_cand 1],
          Call_SearchLayer 8 [demo_cand 1] 1 1 [demo_cand 2],
          Call_SearchLayer 8 [demo_cand 2] 40 0 [demo_cand 2, demo_cand 0],
          Call_ReadBuffer 3 4]"
proof -
  let ?old = "demo_scan (Some [demo_key 0 7])
                 (demo_so\<lparr>first := False, w := [demo_cand 2, demo_cand 1]\<rparr>)"
  let ?new = "demo_scan (Some [demo_key 0 8]) demo_so"
  have r: "hnswrescan ?old None (Some [demo_key 0 8]) = Inr ?new"
    by (simp add: hnswrescan_def copy_keys_def memmove_keys_def demo_scan_def demo_so_def)
  from hnswrescan_resets [OF r] obtain so' where
    o: "opaque ?new = Some so'"
    and i: "\<forall>ws f. hnswrescan (?old\<lparr>opaque := map_option (\<lambda>so. so\<lparr>w := ws, first := f\<rparr>) (opaque ?old)\<rparr>)
                  None (Some [demo_key 0 8]) = Inr ?new"
    and s: "\<forall>E wd ob obs q.
          orderByData ?new = Some (ob # obs) \<and> sk_flags ob AND SK_ISNULL = 0
            \<and> (case normprocinfo so' of None \<Rightarrow> q = sk_argument ob
                | Some np \<Rightarrow> HnswNormValue E np (collation so') (sk_argument ob) = Some q)
          \<longrightarrow> hnswgettuple E ?new wd =
                Inr (scan_loop E ?new
                       (so'\<lparr>w := (case fst (runQuery_spec E q (procinfo so') (collation so')
                                               (elems wd)) of
                                     None \<Rightarrow> [] | Some r \<Rightarrow> r),
                            first := False\<rparr>)
                       (wd\<lparr>elems := snd (runQuery_spec E q (procinfo so') (collation so')
                                            (elems wd)),
                           calls := calls wd @ Call_pgstat_count_index_scan
                             # (case normprocinfo so' of None \<Rightarrow> []
                                | Some np \<Rightarrow> [Call_HnswNormValue np (collation so')
                                               (sk_argument ob) (Some q)])
                             @ runQuery_calls E q (procinfo so') (collation so') (elems wd)\<rparr>))"
    by blast
  from o have so': "so' = demo_so" by (simp add: demo_scan_def)
  from i have 2: "hnswrescan (demo_scan (Some [demo_key 0 7])
        (demo_so\<lparr>first := False, w := [demo_cand 2]\<rparr>)) None (Some [demo_key 0 8]) = Inr ?new"
    by (simp add: demo_scan_def demo_so_def)
  have pre: "orderByData ?new = Some (demo_key 0 8 # []) \<and> sk_flags (demo_key 0 8) AND SK_ISNULL = 0
            \<and> (case normprocinfo so' of None \<Rightarrow> 8 = sk_argument (demo_key 0 8)
                | Some np \<Rightarrow> HnswNormValue hop_env np (collation so') (sk_argument (demo_key 0 8))
                    = Some 8)"
    by (simp add: so' demo_scan_def demo_so_def demo_key_def SK_ISNULL_def)
  from s pre have g: "hnswgettuple hop_env ?new demo_world =
                Inr (scan_loop hop_env ?new
                       (so'\<lparr>w := (case fst (runQuery_spec hop_env 8 (procinfo so') (collation so')
                                               (elems demo_world)) of
                                     None \<Rightarrow> [] | Some r \<Rightarrow> r),
                            first := False\<rparr>)
                       (demo_world\<lparr>elems := snd (runQuery_spec hop_env 8 (procinfo so') (collation so')
                                            (elems demo_world)),
                           calls := calls demo_world @ Call_pgstat_count_index_scan
                             # (case normprocinfo so' of None \<Rightarrow> []
                                | Some np \<Rightarrow> [Call_HnswNormValue np (collation so')
                                               (sk_argument (demo_key 0 8)) (Some 8)])
                             @ runQuery_calls hop_env 8 (procinfo so') (collation so')
                                 (elems demo_world)\<rparr>))"
    by blast
  show ?thesis
    unfolding g so' using r 2
    by (simp add: runQuery_spec_def runQuery_calls_def hop_env_def demo_env_def demo_world_def
          demo_so_def demo_scan_def demo_elems_def demo_cand_def demo_key_def upto_rec1
          scan_loop.simps Let_def BufferIsValid_def InvalidBuffer_def logged_def)
qed

subsection \<open>End of scan\<close>

text \<open>
  C8. As stated the claim fails: ending a freshly begun scan a second time
  dereferences the null \<open>scan->opaque\<close> that the first call left.
\<close>

theorem hnswendscan_twice_counterexample:
  "hnswendscan demo_env
     (fst (projr (hnswendscan demo_env (hnswbeginscan demo_env 0 1) demo_world)))
     (snd (projr (hnswendscan demo_env (hnswbeginscan demo_env 0 1) demo_world)))
   = Inl NullPointerDereference"
  by (simp add: hnswendscan_def hnswbeginscan_def demo_env_def)

text \<open>
  C8, amended. Ending an open scan succeeds, makes exactly the release of the
  pin held, if there is one, and clears \<open>scan->opaque\<close>; ending it once more is a null
  pointer dereference.
\<close>

theorem hnswendscan_once:
  assumes "opaque scan = Some so"
  shows "\<exists>wd'. hnswendscan E scan wd = Inr (scan\<lparr>opaque := None\<rparr>, wd')
           \<and> calls wd' = calls wd @ map Call_ReleaseBuffer (cursor_pins scan)
           \<and> hnswendscan E (scan\<lparr>opaque := None\<rparr>) wd' = Inl NullPointerDereference"
  using assms by (simp add: hnswendscan_def cursor_pins_def logged_def)

theorem hnswendscan_once_witness:
  "\<exists>wd'. hnswendscan demo_env (demo_scan None (demo_so\<lparr>buf := 5\<rparr>)) demo_world
            = Inr ((demo_scan None (demo_so\<lparr>buf := 5\<rparr>))\<lparr>opaque := None\<rparr>, wd')
        \<and> calls wd' = [Call_ReleaseBuffer 5]
        \<and> hnswendscan demo_env ((demo_scan None (demo_so\<lparr>buf := 5\<rparr>))\<lparr>opaque := None\<rparr>) wd'
            = Inl NullPointerDereference"
  using hnswendscan_once [where scan = "demo_scan None (demo_so\<lparr>buf := 5\<rparr>)"
      and so = "demo_so\<lparr>buf := 5\<rparr>" and E = demo_env and wd = demo_world]
  by (simp add: demo_scan_def demo_so_def cursor_pins_def BufferIsValid_def InvalidBuffer_def
        demo_world_def)

end
